theory Spec2Isabelle
  imports Main
begin

section \<open>Decimal text of Python integers\<close>

text \<open>
  \<^verbatim>\<open>str(n)\<close> and the f-string \<^verbatim>\<open>f"t{n}"\<close> print an int in decimal, without leading
  zeros, with a minus sign when negative.
\<close>

definition digit_char :: "nat \<Rightarrow> char" where
  "digit_char d = char_of (48 + d)"

fun str_nat :: "nat \<Rightarrow> string" where
  "str_nat n = (if n < 10 then [digit_char n] else str_nat (n div 10) @ [digit_char (n mod 10)])"

declare str_nat.simps [simp del]

definition str_int :: "int \<Rightarrow> string" where
  "str_int i = (if i < 0 then CHR ''-'' # str_nat (nat (- i)) else str_nat (nat i))"

lemma digit_char_eval [simp]:
  "digit_char 0 = CHR ''0''" "digit_char (Suc 0) = CHR ''1''" "digit_char 2 = CHR ''2''"
  "digit_char 3 = CHR ''3''" "digit_char 4 = CHR ''4''" "digit_char 5 = CHR ''5''"
  "digit_char 6 = CHR ''6''" "digit_char 7 = CHR ''7''" "digit_char 8 = CHR ''8''"
  "digit_char 9 = CHR ''9''"
  by (simp_all add: digit_char_def; code_simp)+

lemma str_nat_0 [simp]: "str_nat 0 = ''0''"
  by (simp add: str_nat.simps)

lemma str_nat_1 [simp]: "str_nat (Suc 0) = ''1''"
  by (simp add: str_nat.simps)

lemma str_nat_small [simp]:
  "str_nat (Suc (Suc 0)) = ''2''" "str_nat (Suc (Suc (Suc 0))) = ''3''"
  by (simp_all add: str_nat.simps digit_char_def; code_simp)+

lemma str_nat_numeral [simp]:
  "str_nat (numeral k) =
     (if (numeral k :: nat) < 10 then [digit_char (numeral k)]
      else str_nat (numeral k div 10) @ [digit_char (numeral k mod 10)])"
  by (rule str_nat.simps)

lemma str_nat_last: "str_nat n \<noteq> [] \<and> last (str_nat n) = digit_char (n mod 10)"
  by (subst str_nat.simps, subst (2) str_nat.simps) simp

lemma digit_char_inj: "a < 10 \<Longrightarrow> b < 10 \<Longrightarrow> digit_char a = digit_char b \<Longrightarrow> a = b"
proof -
  assume a: "a < 10" and b: "b < 10" and eq: "digit_char a = digit_char b"
  from eq have "(of_char (char_of (48 + a) :: char) :: nat) = of_char (char_of (48 + b) :: char)"
    by (simp add: digit_char_def)
  then have "(48 + a) mod 256 = (48 + b) mod 256" by (simp only: of_char_of)
  with a b show "a = b" by simp
qed

lemma str_nat_inj: "str_nat m = str_nat n \<Longrightarrow> m = n"
proof (induction m arbitrary: n rule: str_nat.induct)
  case (1 m)
  show ?case
  proof (cases "m < 10")
    case mlt: True
    show ?thesis
    proof (cases "n < 10")
      case True
      with mlt 1(2) show ?thesis
        by (simp add: str_nat.simps[of m] str_nat.simps[of n] digit_char_inj)
    next
      case False
      with mlt 1(2) str_nat_last[of "n div 10"] show ?thesis
        by (simp add: str_nat.simps[of m] str_nat.simps[of n])
    qed
  next
    case mge: False
    show ?thesis
    proof (cases "n < 10")
      case True
      with mge 1(2) str_nat_last[of "m div 10"] show ?thesis
        by (simp add: str_nat.simps[of m] str_nat.simps[of n])
    next
      case False
      with mge 1(2) have eq: "str_nat (m div 10) = str_nat (n div 10)"
        and d: "digit_char (m mod 10) = digit_char (n mod 10)"
        by (simp_all add: str_nat.simps[of m] str_nat.simps[of n])
      from 1(1)[OF mge eq] have "m div 10 = n div 10" .
      moreover from d have "m mod 10 = n mod 10" by (simp add: digit_char_inj)
      ultimately show ?thesis by (metis div_mult_mod_eq)
    qed
  qed
qed

section \<open>The abstract syntax tree (parser.py)\<close>

text \<open>
  \<^verbatim>\<open>Num.value\<close> is a Python int or float. The compiler never computes with a float: it
  only asks \<^verbatim>\<open>isinstance(value, float)\<close> and prints \<^verbatim>\<open>str(value)\<close>, so a float is
  carried here by the text \<^verbatim>\<open>str\<close> gives for it.
\<close>

datatype numval = IntV int | FloatV string

datatype expr =
    Num numval
  | String string
  | Var string
  | UnaryOp string expr
  | BinOp expr string expr
  | FuncCall string "expr list"

text \<open>
  The fields \<^verbatim>\<open>then_block\<close>, \<^verbatim>\<open>else_block\<close> and \<^verbatim>\<open>body\<close> hold \<^verbatim>\<open>Block\<close> nodes and the
  generator walks them through its generic \<^verbatim>\<open>visit\<close>; they are statements here.
\<close>

datatype stmt =
    Decl string "expr option"
  | Assign string expr
  | Return "expr option"
  | IfStmt expr stmt "stmt option"
  | WhileStmt expr stmt
  | ForStmt stmt expr stmt stmt
  | ExprStmt expr
  | Block "stmt list"

text \<open>A top-level item is a function declaration (return type, name, parameters, body) or a statement.\<close>

datatype item =
    FuncDecl string string "(string \<times> string) list" stmt
  | TopStmt stmt

datatype program = Program "item list"

section \<open>Three-address instructions (ir_generator.py)\<close>

datatype ir_instr =
    IRLabel string
  | IRAssign string string
  | IRBinOp string string string string
  | IRUnaryOp string string string
  | IRGoto string
  | IRIfFalseGoto string string
  | IRCall "string option" string "string list"
  | IRReturn "string option"
  | IRFuncBegin string "string list"
  | IRFuncEnd string
  | IRParam string

section \<open>The IR generator\<close>

record irgen =
  instructions :: "ir_instr list"
  temp_count :: nat
  label_count :: nat
  string_literals :: "(string \<times> string) list"
  string_count :: nat

definition init_irgen :: irgen where
  "init_irgen = \<lparr>instructions = [], temp_count = 0, label_count = 0,
                 string_literals = [], string_count = 0\<rparr>"

definition temp_name :: "nat \<Rightarrow> string" where
  "temp_name k = CHR ''t'' # str_nat k"

definition label_name :: "nat \<Rightarrow> string" where
  "label_name k = CHR ''L'' # str_nat k"

definition string_name :: "nat \<Rightarrow> string" where
  "string_name k = ''str'' @ str_nat k"

definition new_temp :: "irgen \<Rightarrow> string \<times> irgen" where
  "new_temp g = (temp_name (temp_count g), g\<lparr>temp_count := temp_count g + 1\<rparr>)"

definition new_label :: "irgen \<Rightarrow> string \<times> irgen" where
  "new_label g = (label_name (label_count g), g\<lparr>label_count := label_count g + 1\<rparr>)"

text \<open>The dict \<^verbatim>\<open>string_literals\<close> keeps insertion order; a new value goes to the end.\<close>

definition new_string :: "string \<Rightarrow> irgen \<Rightarrow> string \<times> irgen" where
  "new_string v g =
     (case map_of (string_literals g) v of
        Some name \<Rightarrow> (name, g)
      | None \<Rightarrow>
          (let name = string_name (string_count g)
           in (name, g\<lparr>string_literals := string_literals g @ [(v, name)],
                        string_count := string_count g + 1\<rparr>)))"

definition emit :: "ir_instr \<Rightarrow> irgen \<Rightarrow> irgen" where
  "emit instr g = g\<lparr>instructions := instructions g @ [instr]\<rparr>"

definition str_num :: "numval \<Rightarrow> string" where
  "str_num v = (case v of IntV i \<Rightarrow> str_int i | FloatV s \<Rightarrow> s)"

text \<open>
  \<^verbatim>\<open>visit\<close> on an expression returns the operand that holds its value;
  \<open>visit_args\<close> is the loop of \<^verbatim>\<open>visit_call\<close> over the arguments.
\<close>

fun visit_expr :: "expr \<Rightarrow> irgen \<Rightarrow> string \<times> irgen"
  and visit_args :: "expr list \<Rightarrow> string list \<Rightarrow> irgen \<Rightarrow> string list \<times> irgen" where
  "visit_expr (Num v) g = (str_num v, g)"
| "visit_expr (String v) g = new_string v g"
| "visit_expr (Var name) g = (name, g)"
| "visit_expr (BinOp l op r) g =
     (let (left, g1) = visit_expr l g;
          (right, g2) = visit_expr r g1;
          (temp, g3) = new_temp g2
      in (temp, emit (IRBinOp temp left op right) g3))"
| "visit_expr (UnaryOp op e) g =
     (let (ex, g1) = visit_expr e g;
          (temp, g2) = new_temp g1
      in (temp, emit (IRUnaryOp temp op ex) g2))"
| "visit_expr (FuncCall name args) g =
     (let (arg_temps, g1) = visit_args args [] g;
          (temp, g2) = new_temp g1
      in (temp, emit (IRCall (Some temp) name arg_temps) g2))"
| "visit_args [] arg_temps g = (arg_temps, g)"
| "visit_args (arg # rest) arg_temps g =
     (let (arg_temp, g1) = visit_expr arg g
      in visit_args rest (arg_temps @ [arg_temp]) (emit (IRParam arg_temp) g1))"

text \<open>
  \<^verbatim>\<open>visit\<close> on a statement; \<open>visit_stmts\<close> is the loop of \<^verbatim>\<open>visit_block\<close>. A node is
  truthy in Python, so \<^verbatim>\<open>if node.else_block\<close> asks whether the else block is present.
\<close>

fun visit_stmt :: "stmt \<Rightarrow> irgen \<Rightarrow> irgen"
  and visit_stmts :: "stmt list \<Rightarrow> irgen \<Rightarrow> irgen" where
  "visit_stmt (Block statements) g = visit_stmts statements g"
| "visit_stmt (Decl name init) g =
     (case init of
        Some e \<Rightarrow> (let (src, g1) = visit_expr e g in emit (IRAssign name src) g1)
      | None \<Rightarrow> g)"
| "visit_stmt (Assign name e) g =
     (let (src, g1) = visit_expr e g in emit (IRAssign name src) g1)"
| "visit_stmt (Return ex) g =
     (case ex of
        Some e \<Rightarrow> (let (v, g1) = visit_expr e g in emit (IRReturn (Some v)) g1)
      | None \<Rightarrow> emit (IRReturn None) g)"
| "visit_stmt (IfStmt condition then_block else_block) g =
     (let (cond, g1) = visit_expr condition g;
          (label_then, g2) = new_label g1;
          (label_end, g3) = new_label g2;
          (label_else, g4) = (if else_block \<noteq> None then new_label g3 else (label_end, g3));
          g5 = emit (IRIfFalseGoto cond label_else) g4;
          g6 = emit (IRLabel label_then) g5;
          g7 = visit_stmt then_block g6;
          g8 = (case else_block of
                  Some eb \<Rightarrow> visit_stmt eb (emit (IRLabel label_else) (emit (IRGoto label_end) g7))
                | None \<Rightarrow> g7)
      in emit (IRLabel label_end) g8)"
| "visit_stmt (WhileStmt condition body) g =
     (let (label_start, g1) = new_label g;
          (label_body, g2) = new_label g1;
          (label_end, g3) = new_label g2;
          g4 = emit (IRLabel label_start) g3;
          (cond, g5) = visit_expr condition g4;
          g6 = emit (IRIfFalseGoto cond label_end) g5;
          g7 = emit (IRLabel label_body) g6;
          g8 = visit_stmt body g7;
          g9 = emit (IRGoto label_start) g8
      in emit (IRLabel label_end) g9)"
| "visit_stmt (ForStmt init condition step body) g =
     (let g0 = visit_stmt init g;
          (label_start, g1) = new_label g0;
          (label_body, g2) = new_label g1;
          (label_end, g3) = new_label g2;
          g4 = emit (IRLabel label_start) g3;
          (cond, g5) = visit_expr condition g4;
          g6 = emit (IRIfFalseGoto cond label_end) g5;
          g7 = emit (IRLabel label_body) g6;
          g8 = visit_stmt body g7;
          g9 = visit_stmt step g8;
          g10 = emit (IRGoto label_start) g9
      in emit (IRLabel label_end) g10)"
| "visit_stmt (ExprStmt e) g = snd (visit_expr e g)"
| "visit_stmts [] g = g"
| "visit_stmts (s # rest) g = visit_stmts rest (visit_stmt s g)"

fun visit_item :: "item \<Rightarrow> irgen \<Rightarrow> irgen" where
  "visit_item (FuncDecl return_type name params body) g =
     (let param_names = map snd params;
          g1 = emit (IRFuncBegin name param_names) g;
          g2 = visit_stmt body g1
      in emit (IRFuncEnd name) g2)"
| "visit_item (TopStmt s) g = visit_stmt s g"

fun visit_program :: "program \<Rightarrow> irgen \<Rightarrow> irgen" where
  "visit_program (Program items) g = fold visit_item items g"

definition generate_ir :: "program \<Rightarrow> ir_instr list \<times> (string \<times> string) list" where
  "generate_ir ast = (let g = visit_program ast init_irgen in (instructions g, string_literals g))"

text \<open>
  The code a visit appends to the instruction list: what the list holds after the visit,
  past what it held before.
\<close>

definition expr_code :: "expr \<Rightarrow> irgen \<Rightarrow> ir_instr list" where
  "expr_code e g = drop (length (instructions g)) (instructions (snd (visit_expr e g)))"

definition stmt_code :: "stmt \<Rightarrow> irgen \<Rightarrow> ir_instr list" where
  "stmt_code s g = drop (length (instructions g)) (instructions (visit_stmt s g))"


subsection \<open>Every visit only appends\<close>

lemma emit_simps [simp]:
  "instructions (emit i g) = instructions g @ [i]"
  "temp_count (emit i g) = temp_count g"
  "label_count (emit i g) = label_count g"
  "string_literals (emit i g) = string_literals g"
  "string_count (emit i g) = string_count g"
  by (simp_all add: emit_def)

lemma new_temp_simps [simp]:
  "fst (new_temp g) = temp_name (temp_count g)"
  "instructions (snd (new_temp g)) = instructions g"
  "temp_count (snd (new_temp g)) = Suc (temp_count g)"
  "label_count (snd (new_temp g)) = label_count g"
  "string_literals (snd (new_temp g)) = string_literals g"
  "string_count (snd (new_temp g)) = string_count g"
  by (simp_all add: new_temp_def)

lemma new_label_simps [simp]:
  "fst (new_label g) = label_name (label_count g)"
  "instructions (snd (new_label g)) = instructions g"
  "temp_count (snd (new_label g)) = temp_count g"
  "label_count (snd (new_label g)) = Suc (label_count g)"
  "string_literals (snd (new_label g)) = string_literals g"
  "string_count (snd (new_label g)) = string_count g"
  by (simp_all add: new_label_def)

lemma new_string_simps [simp]:
  "instructions (snd (new_string v g)) = instructions g"
  "temp_count (snd (new_string v g)) = temp_count g"
  "label_count (snd (new_string v g)) = label_count g"
  by (simp_all add: new_string_def Let_def split: option.splits)


lemma label_name_inj [simp]: "label_name a = label_name b \<longleftrightarrow> a = b"
  by (auto simp: label_name_def dest: str_nat_inj)

lemma temp_name_inj [simp]: "temp_name a = temp_name b \<longleftrightarrow> a = b"
  by (auto simp: temp_name_def dest: str_nat_inj)

lemma visit_expr_grows:
  "\<exists>E. instructions (snd (visit_expr e g)) = instructions g @ E"
  "\<exists>E. instructions (snd (visit_args as ts g)) = instructions g @ E"
proof (induction e g and as ts g rule: visit_expr_visit_args.induct)
  case (4 l op r g)
  from 4(1) obtain E1 where "instructions (snd (visit_expr l g)) = instructions g @ E1" ..
  moreover from 4(2)[OF refl prod.collapse] obtain E2 where
    "instructions (snd (visit_expr r (snd (visit_expr l g)))) = instructions (snd (visit_expr l g)) @ E2" ..
  ultimately show ?case by (simp add: split_beta)
next
  case (5 op e g)
  then show ?case by (auto simp: split_beta)
next
  case (6 name args g)
  then show ?case by (auto simp: split_beta)
next
  case (8 arg rest arg_temps g)
  from 8(1) obtain E1 where "instructions (snd (visit_expr arg g)) = instructions g @ E1" ..
  moreover from 8(2)[OF refl prod.collapse] obtain E2 where
    "instructions (snd (visit_args rest (arg_temps @ [fst (visit_expr arg g)])
        (emit (IRParam (fst (visit_expr arg g))) (snd (visit_expr arg g))))) =
     instructions (emit (IRParam (fst (visit_expr arg g))) (snd (visit_expr arg g))) @ E2" ..
  ultimately show ?case by (simp add: split_beta)
qed simp_all

lemma visit_expr_label_count [simp]:
  "label_count (snd (visit_expr e g)) = label_count g"
  "label_count (snd (visit_args as ts g)) = label_count g"
proof (induction e g and as ts g rule: visit_expr_visit_args.induct)
  case (4 l op r g)
  with 4(2)[OF refl prod.collapse] show ?case by (simp add: split_beta)
next
  case (8 arg rest arg_temps g)
  with 8(2)[OF refl prod.collapse] show ?case by (simp add: split_beta)
qed (simp_all add: split_beta)


lemma visit_stmt_grows:
  "\<exists>E. instructions (visit_stmt s g) = instructions g @ E"
proof (induction s arbitrary: g)
  case (Decl name init)
  show ?case
  proof (cases init)
    case None
    then show ?thesis by simp
  next
    case (Some e)
    from visit_expr_grows(1)[of e g] obtain E where "instructions (snd (visit_expr e g)) = instructions g @ E" ..
    with Some show ?thesis by (simp add: split_beta)
  qed
next
  case (Assign name e)
  from visit_expr_grows(1)[of e g] obtain E where "instructions (snd (visit_expr e g)) = instructions g @ E" ..
  then show ?case by (simp add: split_beta)
next
  case (Return ex)
  show ?case
  proof (cases ex)
    case None
    then show ?thesis by simp
  next
    case (Some e)
    from visit_expr_grows(1)[of e g] obtain E where "instructions (snd (visit_expr e g)) = instructions g @ E" ..
    with Some show ?thesis by (simp add: split_beta)
  qed
next
  case (IfStmt c tb eb)
  from visit_expr_grows(1)[of c g] obtain E where E: "instructions (snd (visit_expr c g)) = instructions g @ E" ..
  show ?case
  proof (cases eb)
    case None
    let ?g6 = "emit (IRLabel (label_name (label_count g)))
           (emit (IRIfFalseGoto (fst (visit_expr c g)) (label_name (Suc (label_count g))))
             (snd (new_label (snd (new_label (snd (visit_expr c g)))))))"
    from IfStmt(1)[of ?g6] obtain E1 where "instructions (visit_stmt tb ?g6) = instructions ?g6 @ E1" ..
    with None E show ?thesis by (simp add: split_beta Let_def)
  next
    case (Some e)
    let ?g6 = "emit (IRLabel (label_name (label_count g)))
           (emit (IRIfFalseGoto (fst (visit_expr c g)) (label_name (Suc (Suc (label_count g)))))
             (snd (new_label (snd (new_label (snd (new_label (snd (visit_expr c g)))))))))"
    from IfStmt(1)[of ?g6] obtain E1 where E1: "instructions (visit_stmt tb ?g6) = instructions ?g6 @ E1" ..
    let ?g7 = "emit (IRLabel (label_name (Suc (Suc (label_count g)))))
                (emit (IRGoto (label_name (Suc (label_count g)))) (visit_stmt tb ?g6))"
    from IfStmt(2)[of e ?g7] Some obtain E2 where "instructions (visit_stmt e ?g7) = instructions ?g7 @ E2" by auto
    with Some E E1 show ?thesis by (simp add: split_beta Let_def)
  qed
next
  case (WhileStmt c b)
  let ?g4 = "emit (IRLabel (label_name (label_count g))) (snd (new_label (snd (new_label (snd (new_label g))))))"
  from visit_expr_grows(1)[of c ?g4] obtain E where E: "instructions (snd (visit_expr c ?g4)) = instructions ?g4 @ E" ..
  let ?g7 = "emit (IRLabel (label_name (Suc (label_count g))))
       (emit (IRIfFalseGoto (fst (visit_expr c ?g4)) (label_name (Suc (Suc (label_count g))))) (snd (visit_expr c ?g4)))"
  from WhileStmt[of ?g7] obtain E1 where "instructions (visit_stmt b ?g7) = instructions ?g7 @ E1" ..
  with E show ?case by (simp add: split_beta Let_def)
next
  case (ForStmt i c st b)
  from ForStmt(1)[of g] obtain E0 where E0: "instructions (visit_stmt i g) = instructions g @ E0" ..
  let ?g0 = "visit_stmt i g"
  let ?g4 = "emit (IRLabel (label_name (label_count ?g0))) (snd (new_label (snd (new_label (snd (new_label ?g0))))))"
  from visit_expr_grows(1)[of c ?g4] obtain E where E: "instructions (snd (visit_expr c ?g4)) = instructions ?g4 @ E" ..
  let ?g7 = "emit (IRLabel (label_name (Suc (label_count ?g0))))
       (emit (IRIfFalseGoto (fst (visit_expr c ?g4)) (label_name (Suc (Suc (label_count ?g0))))) (snd (visit_expr c ?g4)))"
  from ForStmt(3)[of ?g7] obtain E1 where E1: "instructions (visit_stmt b ?g7) = instructions ?g7 @ E1" ..
  from ForStmt(2)[of "visit_stmt b ?g7"] obtain E2 where
    "instructions (visit_stmt st (visit_stmt b ?g7)) = instructions (visit_stmt b ?g7) @ E2" ..
  with E0 E E1 show ?case by (simp add: split_beta Let_def)
next
  case (ExprStmt e)
  from visit_expr_grows(1)[of e g] show ?case by simp
next
  case (Block ss)
  have "\<exists>E. instructions (visit_stmts ss g) = instructions g @ E" using Block
  proof (induction ss arbitrary: g)
    case Nil
    then show ?case by simp
  next
    case (Cons a ss)
    from Cons(2)[of a g] obtain E1 where E1: "instructions (visit_stmt a g) = instructions g @ E1" by auto
    from Cons(1)[of "visit_stmt a g"] Cons(2) obtain E2 where
      "instructions (visit_stmts ss (visit_stmt a g)) = instructions (visit_stmt a g) @ E2" by auto
    with E1 show ?case by simp
  qed
  then show ?case by simp
qed


lemma visit_expr_instructions:
  "instructions (snd (visit_expr e g)) = instructions g @ expr_code e g"
  using visit_expr_grows(1)[of e g] by (auto simp: expr_code_def)

lemma visit_stmt_instructions:
  "instructions (visit_stmt s g) = instructions g @ stmt_code s g"
  using visit_stmt_grows[of s g] by (auto simp: stmt_code_def)


subsection \<open>The code of each statement\<close>

definition stmts_code :: "stmt list \<Rightarrow> irgen \<Rightarrow> ir_instr list" where
  "stmts_code ss g = drop (length (instructions g)) (instructions (visit_stmts ss g))"

lemma stmts_code_Nil [simp]: "stmts_code [] g = []"
  by (simp add: stmts_code_def)

lemma stmts_code_Cons:
  "instructions (visit_stmts ss (visit_stmt s g)) = instructions (visit_stmt s g) @ E \<Longrightarrow>
   stmts_code (s # ss) g = stmt_code s g @ E"
  by (simp add: stmts_code_def visit_stmt_instructions)

lemma visit_stmts_grows: "\<exists>E. instructions (visit_stmts ss g) = instructions g @ E"
proof (induction ss arbitrary: g)
  case Nil
  show ?case by simp
next
  case (Cons s ss)
  from visit_stmt_grows[of s g] obtain E1 where "instructions (visit_stmt s g) = instructions g @ E1" ..
  moreover from Cons[of "visit_stmt s g"] obtain E2 where
    "instructions (visit_stmts ss (visit_stmt s g)) = instructions (visit_stmt s g) @ E2" ..
  ultimately show ?case by simp
qed

lemma visit_stmts_instructions:
  "instructions (visit_stmts ss g) = instructions g @ stmts_code ss g"
  using visit_stmts_grows[of ss g] by (auto simp: stmts_code_def)

lemma stmts_code_step:
  "stmts_code (s # ss) g = stmt_code s g @ stmts_code ss (visit_stmt s g)"
  by (rule stmts_code_Cons) (rule visit_stmts_instructions)

lemma code_Block: "stmt_code (Block ss) g = stmts_code ss g"
  by (simp add: stmt_code_def stmts_code_def)

lemma code_Decl:
  "stmt_code (Decl name init) g =
     (case init of None \<Rightarrow> []
      | Some e \<Rightarrow> expr_code e g @ [IRAssign name (fst (visit_expr e g))])"
  by (cases init) (simp_all add: stmt_code_def split_beta visit_expr_instructions)

lemma code_Assign:
  "stmt_code (Assign name e) g = expr_code e g @ [IRAssign name (fst (visit_expr e g))]"
  by (simp add: stmt_code_def split_beta visit_expr_instructions)

lemma code_Return:
  "stmt_code (Return ex) g =
     (case ex of None \<Rightarrow> [IRReturn None]
      | Some e \<Rightarrow> expr_code e g @ [IRReturn (Some (fst (visit_expr e g)))])"
  by (cases ex) (simp_all add: stmt_code_def split_beta visit_expr_instructions)

lemma code_ExprStmt: "stmt_code (ExprStmt e) g = expr_code e g"
  by (simp add: stmt_code_def expr_code_def)

lemma visit_If_None:
  assumes "g6 = emit (IRLabel (label_name (label_count g)))
             (emit (IRIfFalseGoto (fst (visit_expr c g)) (label_name (Suc (label_count g))))
               (snd (new_label (snd (new_label (snd (visit_expr c g)))))))"
  shows "visit_stmt (IfStmt c tb None) g =
           emit (IRLabel (label_name (Suc (label_count g)))) (visit_stmt tb g6)"
    and "stmt_code (IfStmt c tb None) g =
           expr_code c g @
           [IRIfFalseGoto (fst (visit_expr c g)) (label_name (Suc (label_count g))),
            IRLabel (label_name (label_count g))] @
           stmt_code tb g6 @ [IRLabel (label_name (Suc (label_count g)))]"
    and "label_count g6 = label_count g + 2"
    and "temp_count g6 = temp_count (snd (visit_expr c g))"
proof -
  show v: "visit_stmt (IfStmt c tb None) g =
           emit (IRLabel (label_name (Suc (label_count g)))) (visit_stmt tb g6)"
    by (simp add: assms split_beta Let_def)
  show "stmt_code (IfStmt c tb None) g =
           expr_code c g @
           [IRIfFalseGoto (fst (visit_expr c g)) (label_name (Suc (label_count g))),
            IRLabel (label_name (label_count g))] @
           stmt_code tb g6 @ [IRLabel (label_name (Suc (label_count g)))]"
    unfolding stmt_code_def[of "IfStmt c tb None"] v
    by (simp add: visit_stmt_instructions[of tb g6]) (simp add: assms visit_expr_instructions)
  show "label_count g6 = label_count g + 2" by (simp add: assms)
  show "temp_count g6 = temp_count (snd (visit_expr c g))" by (simp add: assms)
qed

lemma visit_If_Some:
  assumes "g6 = emit (IRLabel (label_name (label_count g)))
             (emit (IRIfFalseGoto (fst (visit_expr c g)) (label_name (Suc (Suc (label_count g)))))
               (snd (new_label (snd (new_label (snd (new_label (snd (visit_expr c g)))))))))"
    and "g8 = emit (IRLabel (label_name (Suc (Suc (label_count g)))))
                (emit (IRGoto (label_name (Suc (label_count g)))) (visit_stmt tb g6))"
  shows "visit_stmt (IfStmt c tb (Some eb)) g =
           emit (IRLabel (label_name (Suc (label_count g)))) (visit_stmt eb g8)"
    and "stmt_code (IfStmt c tb (Some eb)) g =
           expr_code c g @
           [IRIfFalseGoto (fst (visit_expr c g)) (label_name (Suc (Suc (label_count g)))),
            IRLabel (label_name (label_count g))] @
           stmt_code tb g6 @
           [IRGoto (label_name (Suc (label_count g))),
            IRLabel (label_name (Suc (Suc (label_count g))))] @
           stmt_code eb g8 @ [IRLabel (label_name (Suc (label_count g)))]"
    and "label_count g6 = label_count g + 3"
    and "temp_count g6 = temp_count (snd (visit_expr c g))"
    and "label_count g8 = label_count (visit_stmt tb g6)"
    and "temp_count g8 = temp_count (visit_stmt tb g6)"
proof -
  show v: "visit_stmt (IfStmt c tb (Some eb)) g =
           emit (IRLabel (label_name (Suc (label_count g)))) (visit_stmt eb g8)"
    by (simp add: assms split_beta Let_def)
  have i8: "instructions g8 = instructions g6 @ stmt_code tb g6 @
           [IRGoto (label_name (Suc (label_count g))),
            IRLabel (label_name (Suc (Suc (label_count g))))]"
    by (simp add: assms(2) visit_stmt_instructions[of tb g6])
  have i6: "instructions g6 = instructions g @ expr_code c g @
           [IRIfFalseGoto (fst (visit_expr c g)) (label_name (Suc (Suc (label_count g)))),
            IRLabel (label_name (label_count g))]"
    by (simp add: assms(1) visit_expr_instructions)
  show "stmt_code (IfStmt c tb (Some eb)) g =
           expr_code c g @
           [IRIfFalseGoto (fst (visit_expr c g)) (label_name (Suc (Suc (label_count g)))),
            IRLabel (label_name (label_count g))] @
           stmt_code tb g6 @
           [IRGoto (label_name (Suc (label_count g))),
            IRLabel (label_name (Suc (Suc (label_count g))))] @
           stmt_code eb g8 @ [IRLabel (label_name (Suc (label_count g)))]"
    unfolding stmt_code_def[of "IfStmt c tb (Some eb)"] v
    by (simp add: visit_stmt_instructions[of eb g8] i8 i6)
  show "label_count g6 = label_count g + 3" by (simp add: assms)
  show "temp_count g6 = temp_count (snd (visit_expr c g))" by (simp add: assms)
  show "label_count g8 = label_count (visit_stmt tb g6)" by (simp add: assms)
  show "temp_count g8 = temp_count (visit_stmt tb g6)" by (simp add: assms)
qed

lemma visit_While:
  assumes "g4 = emit (IRLabel (label_name (label_count g)))
                  (snd (new_label (snd (new_label (snd (new_label g))))))"
    and "g7 = emit (IRLabel (label_name (Suc (label_count g))))
                (emit (IRIfFalseGoto (fst (visit_expr c g4)) (label_name (Suc (Suc (label_count g)))))
                  (snd (visit_expr c g4)))"
  shows "visit_stmt (WhileStmt c b) g =
           emit (IRLabel (label_name (Suc (Suc (label_count g)))))
             (emit (IRGoto (label_name (label_count g))) (visit_stmt b g7))"
    and "stmt_code (WhileStmt c b) g =
           [IRLabel (label_name (label_count g))] @ expr_code c g4 @
           [IRIfFalseGoto (fst (visit_expr c g4)) (label_name (Suc (Suc (label_count g)))),
            IRLabel (label_name (Suc (label_count g)))] @
           stmt_code b g7 @
           [IRGoto (label_name (label_count g)),
            IRLabel (label_name (Suc (Suc (label_count g))))]"
    and "label_count g7 = label_count g + 3"
    and "temp_count g4 = temp_count g"
    and "temp_count g7 = temp_count (snd (visit_expr c g4))"
proof -
  show v: "visit_stmt (WhileStmt c b) g =
           emit (IRLabel (label_name (Suc (Suc (label_count g)))))
             (emit (IRGoto (label_name (label_count g))) (visit_stmt b g7))"
    by (simp add: assms split_beta Let_def)
  have i4: "instructions g4 = instructions g @ [IRLabel (label_name (label_count g))]"
    by (simp add: assms(1))
  have i7: "instructions g7 = instructions g4 @ expr_code c g4 @
           [IRIfFalseGoto (fst (visit_expr c g4)) (label_name (Suc (Suc (label_count g)))),
            IRLabel (label_name (Suc (label_count g)))]"
    by (simp add: assms(2) visit_expr_instructions[of c g4])
  show "stmt_code (WhileStmt c b) g =
           [IRLabel (label_name (label_count g))] @ expr_code c g4 @
           [IRIfFalseGoto (fst (visit_expr c g4)) (label_name (Suc (Suc (label_count g)))),
            IRLabel (label_name (Suc (label_count g)))] @
           stmt_code b g7 @
           [IRGoto (label_name (label_count g)),
            IRLabel (label_name (Suc (Suc (label_count g))))]"
    unfolding stmt_code_def[of "WhileStmt c b"] v
    by (simp add: visit_stmt_instructions[of b g7] i7 i4)
  show "label_count g7 = label_count g + 3" by (simp add: assms)
  show "temp_count g4 = temp_count g" by (simp add: assms)
  show "temp_count g7 = temp_count (snd (visit_expr c g4))" by (simp add: assms)
qed

lemma visit_For:
  assumes "g0 = visit_stmt init g"
    and "g4 = emit (IRLabel (label_name (label_count g0)))
                  (snd (new_label (snd (new_label (snd (new_label g0))))))"
    and "g7 = emit (IRLabel (label_name (Suc (label_count g0))))
                (emit (IRIfFalseGoto (fst (visit_expr c g4)) (label_name (Suc (Suc (label_count g0)))))
                  (snd (visit_expr c g4)))"
    and "g8 = visit_stmt b g7"
  shows "visit_stmt (ForStmt init c step b) g =
           emit (IRLabel (label_name (Suc (Suc (label_count g0)))))
             (emit (IRGoto (label_name (label_count g0))) (visit_stmt step g8))"
    and "stmt_code (ForStmt init c step b) g =
           stmt_code init g @
           [IRLabel (label_name (label_count g0))] @ expr_code c g4 @
           [IRIfFalseGoto (fst (visit_expr c g4)) (label_name (Suc (Suc (label_count g0)))),
            IRLabel (label_name (Suc (label_count g0)))] @
           stmt_code b g7 @ stmt_code step g8 @
           [IRGoto (label_name (label_count g0)),
            IRLabel (label_name (Suc (Suc (label_count g0))))]"
    and "label_count g7 = label_count g0 + 3"
    and "temp_count g4 = temp_count g0"
    and "temp_count g7 = temp_count (snd (visit_expr c g4))"
proof -
  show v: "visit_stmt (ForStmt init c step b) g =
           emit (IRLabel (label_name (Suc (Suc (label_count g0)))))
             (emit (IRGoto (label_name (label_count g0))) (visit_stmt step g8))"
    by (simp add: assms split_beta Let_def)
  have i0: "instructions g0 = instructions g @ stmt_code init g"
    by (simp add: assms(1) visit_stmt_instructions)
  have i4: "instructions g4 = instructions g0 @ [IRLabel (label_name (label_count g0))]"
    by (simp add: assms(2))
  have i7: "instructions g7 = instructions g4 @ expr_code c g4 @
           [IRIfFalseGoto (fst (visit_expr c g4)) (label_name (Suc (Suc (label_count g0)))),
            IRLabel (label_name (Suc (label_count g0)))]"
    by (simp add: assms(3) visit_expr_instructions[of c g4])
  have i8: "instructions g8 = instructions g7 @ stmt_code b g7"
    by (simp add: assms(4) visit_stmt_instructions)
  show "stmt_code (ForStmt init c step b) g =
           stmt_code init g @
           [IRLabel (label_name (label_count g0))] @ expr_code c g4 @
           [IRIfFalseGoto (fst (visit_expr c g4)) (label_name (Suc (Suc (label_count g0)))),
            IRLabel (label_name (Suc (label_count g0)))] @
           stmt_code b g7 @ stmt_code step g8 @
           [IRGoto (label_name (label_count g0)),
            IRLabel (label_name (Suc (Suc (label_count g0))))]"
    unfolding stmt_code_def[of "ForStmt init c step b"] v
    by (simp add: visit_stmt_instructions[of step g8] i8 i7 i4 i0)
  show "label_count g7 = label_count g0 + 3" by (simp add: assms)
  show "temp_count g4 = temp_count g0" by (simp add: assms)
  show "temp_count g7 = temp_count (snd (visit_expr c g4))" by (simp add: assms)
qed

subsection \<open>The code of each expression\<close>

definition args_code :: "expr list \<Rightarrow> string list \<Rightarrow> irgen \<Rightarrow> ir_instr list" where
  "args_code as ts g = drop (length (instructions g)) (instructions (snd (visit_args as ts g)))"

lemma visit_args_instructions:
  "instructions (snd (visit_args as ts g)) = instructions g @ args_code as ts g"
  using visit_expr_grows(2)[of as ts g] by (auto simp: args_code_def)

lemma code_atoms [simp]:
  "expr_code (Num v) g = []" "expr_code (String s) g = []" "expr_code (Var x) g = []"
  by (simp_all add: expr_code_def)

lemma visit_BinOp:
  assumes "g1 = snd (visit_expr l g)" and "g2 = snd (visit_expr r g1)"
  shows "visit_expr (BinOp l op r) g =
           (temp_name (temp_count g2),
            emit (IRBinOp (temp_name (temp_count g2)) (fst (visit_expr l g)) op (fst (visit_expr r g1)))
              (snd (new_temp g2)))"
    and "expr_code (BinOp l op r) g =
           expr_code l g @ expr_code r g1 @
           [IRBinOp (temp_name (temp_count g2)) (fst (visit_expr l g)) op (fst (visit_expr r g1))]"
proof -
  show v: "visit_expr (BinOp l op r) g =
           (temp_name (temp_count g2),
            emit (IRBinOp (temp_name (temp_count g2)) (fst (visit_expr l g)) op (fst (visit_expr r g1)))
              (snd (new_temp g2)))"
    by (simp add: assms split_beta new_temp_def)
  show "expr_code (BinOp l op r) g =
           expr_code l g @ expr_code r g1 @
           [IRBinOp (temp_name (temp_count g2)) (fst (visit_expr l g)) op (fst (visit_expr r g1))]"
    unfolding expr_code_def[of "BinOp l op r"] v
    by (simp add: assms visit_expr_instructions[of r] visit_expr_instructions[of l g])
qed

lemma visit_UnaryOp:
  assumes "g1 = snd (visit_expr e g)"
  shows "visit_expr (UnaryOp op e) g =
           (temp_name (temp_count g1),
            emit (IRUnaryOp (temp_name (temp_count g1)) op (fst (visit_expr e g))) (snd (new_temp g1)))"
    and "expr_code (UnaryOp op e) g =
           expr_code e g @ [IRUnaryOp (temp_name (temp_count g1)) op (fst (visit_expr e g))]"
proof -
  show v: "visit_expr (UnaryOp op e) g =
           (temp_name (temp_count g1),
            emit (IRUnaryOp (temp_name (temp_count g1)) op (fst (visit_expr e g))) (snd (new_temp g1)))"
    by (simp add: assms split_beta new_temp_def)
  show "expr_code (UnaryOp op e) g =
           expr_code e g @ [IRUnaryOp (temp_name (temp_count g1)) op (fst (visit_expr e g))]"
    unfolding expr_code_def[of "UnaryOp op e"] v
    by (simp add: assms visit_expr_instructions[of e g])
qed

lemma visit_FuncCall:
  assumes "g1 = snd (visit_args args [] g)"
  shows "visit_expr (FuncCall name args) g =
           (temp_name (temp_count g1),
            emit (IRCall (Some (temp_name (temp_count g1))) name (fst (visit_args args [] g)))
              (snd (new_temp g1)))"
    and "expr_code (FuncCall name args) g =
           args_code args [] g @
           [IRCall (Some (temp_name (temp_count g1))) name (fst (visit_args args [] g))]"
proof -
  show v: "visit_expr (FuncCall name args) g =
           (temp_name (temp_count g1),
            emit (IRCall (Some (temp_name (temp_count g1))) name (fst (visit_args args [] g)))
              (snd (new_temp g1)))"
    by (simp add: assms split_beta new_temp_def)
  show "expr_code (FuncCall name args) g =
           args_code args [] g @
           [IRCall (Some (temp_name (temp_count g1))) name (fst (visit_args args [] g))]"
    unfolding expr_code_def[of "FuncCall name args"] v
    by (simp add: assms visit_args_instructions)
qed

lemma args_code_Nil [simp]: "args_code [] ts g = []"
  by (simp add: args_code_def)

lemma visit_args_Cons:
  assumes "g2 = emit (IRParam (fst (visit_expr a g))) (snd (visit_expr a g))"
  shows "visit_args (a # as) ts g = visit_args as (ts @ [fst (visit_expr a g)]) g2"
    and "args_code (a # as) ts g =
           expr_code a g @ [IRParam (fst (visit_expr a g))] @
           args_code as (ts @ [fst (visit_expr a g)]) g2"
proof -
  show v: "visit_args (a # as) ts g = visit_args as (ts @ [fst (visit_expr a g)]) g2"
    by (simp add: assms split_beta)
  have i2: "instructions g2 = instructions g @ expr_code a g @ [IRParam (fst (visit_expr a g))]"
    by (simp add: assms visit_expr_instructions)
  show "args_code (a # as) ts g =
           expr_code a g @ [IRParam (fst (visit_expr a g))] @
           args_code as (ts @ [fst (visit_expr a g)]) g2"
    unfolding args_code_def[of "a # as"] v
    by (simp add: visit_args_instructions[of as _ g2] i2)
qed

subsection \<open>Labels, jump targets, destinations and sources of instructions\<close>

fun label_of :: "ir_instr \<Rightarrow> string list" where
  "label_of (IRLabel n) = [n]"
| "label_of _ = []"

fun target_of :: "ir_instr \<Rightarrow> string list" where
  "target_of (IRGoto l) = [l]"
| "target_of (IRIfFalseGoto c l) = [l]"
| "target_of _ = []"

fun is_func_marker :: "ir_instr \<Rightarrow> bool" where
  "is_func_marker (IRFuncBegin n ps) = True"
| "is_func_marker (IRFuncEnd n) = True"
| "is_func_marker _ = False"

definition labels_of :: "ir_instr list \<Rightarrow> string list" where
  "labels_of is = concat (map label_of is)"

definition targets_of :: "ir_instr list \<Rightarrow> string list" where
  "targets_of is = concat (map target_of is)"

lemma labels_of_simps [simp]:
  "labels_of [] = []" "labels_of (x # xs) = label_of x @ labels_of xs"
  "labels_of (xs @ ys) = labels_of xs @ labels_of ys"
  by (simp_all add: labels_of_def)

lemma targets_of_simps [simp]:
  "targets_of [] = []" "targets_of (x # xs) = target_of x @ targets_of xs"
  "targets_of (xs @ ys) = targets_of xs @ targets_of ys"
  by (simp_all add: targets_of_def)

text \<open>Expressions emit no label, no jump and no function marker.\<close>

lemma expr_code_plain:
  "labels_of (expr_code e g) = [] \<and> targets_of (expr_code e g) = [] \<and>
   \<not> list_ex is_func_marker (expr_code e g)"
  "labels_of (args_code as ts g) = [] \<and> targets_of (args_code as ts g) = [] \<and>
   \<not> list_ex is_func_marker (args_code as ts g)"
proof (induction e g and as ts g rule: visit_expr_visit_args.induct)
  case (4 l op r g)
  from 4(1) 4(2)[OF refl prod.collapse] show ?case
    by (simp add: visit_BinOp(2)[OF refl refl])
next
  case (5 op e g)
  then show ?case by (simp add: visit_UnaryOp(2)[OF refl])
next
  case (6 name args g)
  then show ?case by (simp add: visit_FuncCall(2)[OF refl])
next
  case (8 arg rest arg_temps g)
  from 8(1) 8(2)[OF refl prod.collapse] show ?case
    by (simp add: visit_args_Cons(2)[OF refl])
qed simp_all

subsection \<open>Every statement defines the labels it allocates, once each\<close>

text \<open>
  The code of a statement visited with the counter at \<open>lo\<close> and left with it at \<open>hi\<close>: it
  defines each of the labels \<open>lo..<hi\<close> once and no other, jumps only to those, and holds no
  function marker.
\<close>

definition labelled :: "nat \<Rightarrow> nat \<Rightarrow> ir_instr list \<Rightarrow> bool" where
  "labelled lo hi E =
     (distinct (labels_of E) \<and> set (labels_of E) = label_name ` {lo..<hi} \<and>
      set (targets_of E) \<subseteq> label_name ` {lo..<hi} \<and> \<not> list_ex is_func_marker E)"

lemma inj_label_name: "inj label_name"
  by (simp add: inj_def)

lemma label_name_image_iff [simp]: "label_name k \<in> label_name ` S \<longleftrightarrow> k \<in> S"
  by auto

lemma labelled_plain:
  "labels_of E = [] \<Longrightarrow> targets_of E = [] \<Longrightarrow> \<not> list_ex is_func_marker E \<Longrightarrow> labelled k k E"
  by (simp add: labelled_def)

lemma labelled_append:
  assumes "labelled a b E1" and "labelled b c E2" and "a \<le> b" and "b \<le> c"
  shows "labelled a c (E1 @ E2)"
proof -
  have split: "{a..<c} = {a..<b} \<union> {b..<c}" using assms(3,4) by auto
  have disj: "label_name ` {a..<b} \<inter> label_name ` {b..<c} = {}" by auto
  from assms(1,2) disj show ?thesis
    unfolding labelled_def split image_Un by auto
qed

lemma labelled_if_none:
  assumes "labelled (k + 2) a T" and "k + 2 \<le> a"
    and "labels_of C = []" "targets_of C = []" "\<not> list_ex is_func_marker C"
  shows "labelled k a (C @ [IRIfFalseGoto cv (label_name (Suc k)), IRLabel (label_name k)] @ T @
                        [IRLabel (label_name (Suc k))])"
proof -
  have split: "{k..<a} = insert k (insert (Suc k) {k + 2..<a})" using assms(2) by auto
  from assms show ?thesis
    unfolding labelled_def split by auto
qed

lemma labelled_if_some:
  assumes "labelled (k + 3) a T" and "labelled a b F" and "k + 3 \<le> a" and "a \<le> b"
    and "labels_of C = []" "targets_of C = []" "\<not> list_ex is_func_marker C"
  shows "labelled k b (C @ [IRIfFalseGoto cv (label_name (Suc (Suc k))), IRLabel (label_name k)] @ T @
                        [IRGoto (label_name (Suc k)), IRLabel (label_name (Suc (Suc k)))] @ F @
                        [IRLabel (label_name (Suc k))])"
proof -
  have split: "{k..<b} = insert k (insert (Suc k) (insert (Suc (Suc k)) ({k + 3..<a} \<union> {a..<b})))"
    using assms(3,4) by auto
  have disj: "label_name ` {k + 3..<a} \<inter> label_name ` {a..<b} = {}" by auto
  from assms disj show ?thesis
    unfolding labelled_def split image_Un image_insert by auto
qed

lemma labelled_loop:
  assumes "labelled (k + 3) a B" and "k + 3 \<le> a"
    and "labels_of C = []" "targets_of C = []" "\<not> list_ex is_func_marker C"
  shows "labelled k a ([IRLabel (label_name k)] @ C @
                        [IRIfFalseGoto cv (label_name (Suc (Suc k))), IRLabel (label_name (Suc k))] @ B @
                        [IRGoto (label_name k), IRLabel (label_name (Suc (Suc k)))])"
proof -
  have split: "{k..<a} = insert k (insert (Suc k) (insert (Suc (Suc k)) {k + 3..<a}))"
    using assms(2) by auto
  from assms show ?thesis
    unfolding labelled_def split image_insert by auto
qed

lemma stmt_labelled:
  "label_count g \<le> label_count (visit_stmt s g) \<and>
   labelled (label_count g) (label_count (visit_stmt s g)) (stmt_code s g)"
proof (induction s arbitrary: g)
  case (Decl name init)
  show ?case
    using expr_code_plain(1)
    by (cases init) (simp_all add: code_Decl split_beta labelled_plain)
next
  case (Assign name e)
  show ?case
    using expr_code_plain(1)[of e g]
    by (simp add: code_Assign split_beta labelled_plain)
next
  case (Return ex)
  show ?case
    using expr_code_plain(1)
    by (cases ex) (simp_all add: code_Return split_beta labelled_plain)
next
  case (ExprStmt e)
  show ?case
    using expr_code_plain(1)[of e g]
    by (simp add: code_ExprStmt labelled_plain)
next
  case (IfStmt c tb eb)
  show ?case
  proof (cases eb)
    case None
    define g6 where "g6 = emit (IRLabel (label_name (label_count g)))
             (emit (IRIfFalseGoto (fst (visit_expr c g)) (label_name (Suc (label_count g))))
               (snd (new_label (snd (new_label (snd (visit_expr c g)))))))"
    note eqs = visit_If_None[OF g6_def]
    from IfStmt(1)[of g6] eqs(3)
    have le: "label_count g + 2 \<le> label_count (visit_stmt tb g6)"
      and lab: "labelled (label_count g + 2) (label_count (visit_stmt tb g6)) (stmt_code tb g6)"
      by simp_all
    from expr_code_plain(1)[of c g] have pl: "labels_of (expr_code c g) = []"
      "targets_of (expr_code c g) = []" "\<not> list_ex is_func_marker (expr_code c g)" by simp_all
    have "labelled (label_count g) (label_count (visit_stmt tb g6)) (stmt_code (IfStmt c tb None) g)"
      unfolding eqs(2) by (rule labelled_if_none[OF lab le pl])
    with le show ?thesis unfolding None eqs(1) by simp
  next
    case (Some e)
    define g6 where "g6 = emit (IRLabel (label_name (label_count g)))
             (emit (IRIfFalseGoto (fst (visit_expr c g)) (label_name (Suc (Suc (label_count g)))))
               (snd (new_label (snd (new_label (snd (new_label (snd (visit_expr c g)))))))))"
    define g8 where "g8 = emit (IRLabel (label_name (Suc (Suc (label_count g)))))
                (emit (IRGoto (label_name (Suc (label_count g)))) (visit_stmt tb g6))"
    note eqs = visit_If_Some[OF g6_def g8_def]
    from IfStmt(1)[of g6] eqs(3)
    have le1: "label_count g + 3 \<le> label_count (visit_stmt tb g6)"
      and lab1: "labelled (label_count g + 3) (label_count (visit_stmt tb g6)) (stmt_code tb g6)"
      by simp_all
    from IfStmt(2)[of e g8] Some eqs(5)
    have le2: "label_count (visit_stmt tb g6) \<le> label_count (visit_stmt e g8)"
      and lab2: "labelled (label_count (visit_stmt tb g6)) (label_count (visit_stmt e g8)) (stmt_code e g8)"
      by simp_all
    from expr_code_plain(1)[of c g] have pl: "labels_of (expr_code c g) = []"
      "targets_of (expr_code c g) = []" "\<not> list_ex is_func_marker (expr_code c g)" by simp_all
    have "labelled (label_count g) (label_count (visit_stmt e g8)) (stmt_code (IfStmt c tb (Some e)) g)"
      unfolding eqs(2) by (rule labelled_if_some[OF lab1 lab2 le1 le2 pl])
    with le1 le2 show ?thesis unfolding Some eqs(1) by simp
  qed
next
  case (WhileStmt c b)
  define g4 where "g4 = emit (IRLabel (label_name (label_count g)))
                  (snd (new_label (snd (new_label (snd (new_label g))))))"
  define g7 where "g7 = emit (IRLabel (label_name (Suc (label_count g))))
                (emit (IRIfFalseGoto (fst (visit_expr c g4)) (label_name (Suc (Suc (label_count g)))))
                  (snd (visit_expr c g4)))"
  note eqs = visit_While[OF g4_def g7_def]
  from WhileStmt[of g7] eqs(3)
  have le: "label_count g + 3 \<le> label_count (visit_stmt b g7)"
    and lab: "labelled (label_count g + 3) (label_count (visit_stmt b g7)) (stmt_code b g7)"
    by simp_all
  from expr_code_plain(1)[of c g4] have pl: "labels_of (expr_code c g4) = []"
    "targets_of (expr_code c g4) = []" "\<not> list_ex is_func_marker (expr_code c g4)" by simp_all
  have "labelled (label_count g) (label_count (visit_stmt b g7)) (stmt_code (WhileStmt c b) g)"
    unfolding eqs(2) by (rule labelled_loop[OF lab le pl])
  with le show ?case unfolding eqs(1) by simp
next
  case (ForStmt init c step b)
  define g0 where "g0 = visit_stmt init g"
  define g4 where "g4 = emit (IRLabel (label_name (label_count g0)))
                  (snd (new_label (snd (new_label (snd (new_label g0))))))"
  define g7 where "g7 = emit (IRLabel (label_name (Suc (label_count g0))))
                (emit (IRIfFalseGoto (fst (visit_expr c g4)) (label_name (Suc (Suc (label_count g0)))))
                  (snd (visit_expr c g4)))"
  define g8 where "g8 = visit_stmt b g7"
  note eqs = visit_For[OF g0_def g4_def g7_def g8_def]
  from ForStmt(1)[of g] have le0: "label_count g \<le> label_count g0"
    and lab0: "labelled (label_count g) (label_count g0) (stmt_code init g)"
    by (simp_all add: g0_def)
  from ForStmt(3)[of g7] eqs(3)
  have le1: "label_count g0 + 3 \<le> label_count g8"
    and lab1: "labelled (label_count g0 + 3) (label_count g8) (stmt_code b g7)"
    by (simp_all add: g8_def)
  from ForStmt(2)[of g8]
  have le2: "label_count g8 \<le> label_count (visit_stmt step g8)"
    and lab2: "labelled (label_count g8) (label_count (visit_stmt step g8)) (stmt_code step g8)"
    by simp_all
  from labelled_append[OF lab1 lab2 le1 le2]
  have body: "labelled (label_count g0 + 3) (label_count (visit_stmt step g8))
                (stmt_code b g7 @ stmt_code step g8)" .
  from le1 le2 have le3: "label_count g0 + 3 \<le> label_count (visit_stmt step g8)" by simp
  from expr_code_plain(1)[of c g4] have pl: "labels_of (expr_code c g4) = []"
    "targets_of (expr_code c g4) = []" "\<not> list_ex is_func_marker (expr_code c g4)" by simp_all
  note loop = labelled_loop[OF body le3 pl]
  from le3 have le4: "label_count g0 \<le> label_count (visit_stmt step g8)" by simp
  have "labelled (label_count g) (label_count (visit_stmt step g8)) (stmt_code (ForStmt init c step b) g)"
    using labelled_append[OF lab0 loop le0 le4]
    by (simp only: eqs(2) append_assoc)
  with le0 le4 show ?case unfolding eqs(1) by simp
next
  case (Block ss)
  have "label_count g \<le> label_count (visit_stmts ss g) \<and>
        labelled (label_count g) (label_count (visit_stmts ss g)) (stmts_code ss g)"
    using Block
  proof (induction ss arbitrary: g)
    case Nil
    show ?case by (simp add: labelled_plain)
  next
    case (Cons a ss)
    from Cons(2)[of a g] have le1: "label_count g \<le> label_count (visit_stmt a g)"
      and lab1: "labelled (label_count g) (label_count (visit_stmt a g)) (stmt_code a g)"
      by simp_all
    from Cons(1)[of "visit_stmt a g"] Cons(2)
    have le2: "label_count (visit_stmt a g) \<le> label_count (visit_stmts ss (visit_stmt a g))"
      and lab2: "labelled (label_count (visit_stmt a g)) (label_count (visit_stmts ss (visit_stmt a g)))
                   (stmts_code ss (visit_stmt a g))"
      by simp_all
    from labelled_append[OF lab1 lab2 le1 le2] le1 le2 show ?case
      by (simp add: stmts_code_step)
  qed
  then show ?case by (simp add: code_Block)
qed

subsection \<open>Lowering of if\<close>

text \<open>The invariant of the generator's label counter: the list names only labels below it.\<close>

definition label_names_below :: "nat \<Rightarrow> ir_instr list \<Rightarrow> bool" where
  "label_names_below n is = (set (labels_of is) \<union> set (targets_of is) \<subseteq> label_name ` {..<n})"

lemma labelled_names:
  "labelled lo hi E \<Longrightarrow> set (labels_of E) \<union> set (targets_of E) \<subseteq> label_name ` {lo..<hi}"
  by (auto simp: labelled_def)

lemma label_names_below_grow:
  assumes "label_names_below lo xs" and "labelled lo hi E" and "lo \<le> hi"
  shows "label_names_below hi (xs @ E)"
proof -
  have "label_name ` {..<lo} \<subseteq> label_name ` {..<hi}" using assms(3) by auto
  moreover have "label_name ` {lo..<hi} \<subseteq> label_name ` {..<hi}" by auto
  ultimately show ?thesis
    using assms(1) labelled_names[OF assms(2)]
    unfolding label_names_below_def by (simp add: subset_iff)
qed

lemma fresh_above:
  assumes "S \<subseteq> label_name ` {lo..<hi}" and "k < lo"
  shows "label_name k \<notin> S"
  using assms by auto

lemma fresh_below:
  assumes "S \<subseteq> label_name ` {..<n}" and "n \<le> k"
  shows "label_name k \<notin> S"
  using assms by auto

text \<open>
  C1. \<^verbatim>\<open>visit_if\<close> evaluates the condition to an operand \<open>c\<close> (expressions allocate no
  label), allocates \<open>L_then\<close> and \<open>L_end\<close>, and \<open>L_else\<close> only when there is an else
  block; the names differ. The state it returns is the state after the last block with
  \<open>Label L_end\<close> appended, so its label counter is the one the last block left, at
  least two (three with an else block) past the old one. The instruction list grows by
  exactly: the condition's code, \<open>IfFalseGoto\<close> to \<open>L_else\<close> when there is an else block and
  to \<open>L_end\<close> otherwise, \<open>Label L_then\<close>, the then-block's code, only with an else block
  \<open>Goto L_end\<close>, \<open>Label L_else\<close> and the else-block's code, and last \<open>Label L_end\<close>.
  The allocated labels are fresh: the code of the condition and of the blocks does not
  name them, and when the list named only labels below the counter before the visit, it
  did not name them either and the same holds of the returned state.
\<close>

theorem visit_if_lowering:
  "let (c, g1) = visit_expr condition g;
       L_then = label_name (label_count g);
       L_end = label_name (label_count g + 1);
       L_else = label_name (label_count g + 2);
       jump = IRIfFalseGoto c (if else_block = None then L_end else L_else);
       g_then = emit (IRLabel L_then) (emit jump
                  (g1\<lparr>label_count := label_count g + (if else_block = None then 2 else 3)\<rparr>));
       g_else = emit (IRLabel L_else) (emit (IRGoto L_end) (visit_stmt then_block g_then));
       g_last = (case else_block of None \<Rightarrow> visit_stmt then_block g_then
                 | Some eb \<Rightarrow> visit_stmt eb g_else);
       allocated = (if else_block = None then [L_then, L_end] else [L_then, L_end, L_else]);
       inner = expr_code condition g @ stmt_code then_block g_then @
               (case else_block of None \<Rightarrow> [] | Some eb \<Rightarrow> stmt_code eb g_else);
       result = visit_stmt (IfStmt condition then_block else_block) g
   in distinct [L_then, L_end, L_else] \<and>
      instructions result =
        instructions g @ expr_code condition g @ [jump, IRLabel L_then] @
        stmt_code then_block g_then @
        (case else_block of
           None \<Rightarrow> []
         | Some eb \<Rightarrow> [IRGoto L_end, IRLabel L_else] @ stmt_code eb g_else) @
        [IRLabel L_end] \<and>
      result = emit (IRLabel L_end) g_last \<and>
      label_count result = label_count g_last \<and>
      label_count g + length allocated \<le> label_count result \<and>
      set allocated \<inter> (set (labels_of inner) \<union> set (targets_of inner)) = {} \<and>
      (label_names_below (label_count g) (instructions g) \<longrightarrow>
         set allocated \<inter> (set (labels_of (instructions g)) \<union> set (targets_of (instructions g))) = {} \<and>
         label_names_below (label_count result) (instructions result))"
proof -
  let ?k = "label_count g"
  let ?res = "visit_stmt (IfStmt condition then_block else_block) g"
  from expr_code_plain(1)[of condition g] have pl: "labels_of (expr_code condition g) = []"
    "targets_of (expr_code condition g) = []" by simp_all
  from stmt_labelled[of g "IfStmt condition then_block else_block"]
  have whole: "labelled ?k (label_count ?res) (stmt_code (IfStmt condition then_block else_block) g)"
    and mono: "?k \<le> label_count ?res" by simp_all
  have inv: "label_names_below (label_count ?res) (instructions ?res)"
    if "label_names_below ?k (instructions g)"
    using label_names_below_grow[OF that whole mono]
    unfolding visit_stmt_instructions[of "IfStmt condition then_block else_block" g] .
  show ?thesis
  proof (cases else_block)
    case None
    define g6 where "g6 = emit (IRLabel (label_name ?k))
             (emit (IRIfFalseGoto (fst (visit_expr condition g)) (label_name (Suc ?k)))
               (snd (new_label (snd (new_label (snd (visit_expr condition g)))))))"
    note eqs = visit_If_None[OF g6_def]
    have g6: "emit (IRLabel (label_name ?k))
        (emit (IRIfFalseGoto (fst (visit_expr condition g)) (label_name (Suc ?k)))
           ((snd (visit_expr condition g))\<lparr>label_count := Suc (Suc ?k)\<rparr>)) = g6"
      by (simp add: g6_def emit_def new_label_def)
    from stmt_labelled[of g6 then_block] eqs(3)
    have le: "?k + 2 \<le> label_count (visit_stmt then_block g6)"
      and lab: "labelled (?k + 2) (label_count (visit_stmt then_block g6)) (stmt_code then_block g6)"
      by simp_all
    note nm = labelled_names[OF lab]
    have f1: "label_name ?k \<notin> set (labels_of (stmt_code then_block g6)) \<union>
                set (targets_of (stmt_code then_block g6))"
      and f2: "label_name (Suc ?k) \<notin> set (labels_of (stmt_code then_block g6)) \<union>
                set (targets_of (stmt_code then_block g6))"
      using fresh_above[OF nm, of ?k] fresh_above[OF nm, of "Suc ?k"] by simp_all
    have old: "label_name ?k \<notin> set (labels_of (instructions g)) \<union> set (targets_of (instructions g))"
        "label_name (Suc ?k) \<notin> set (labels_of (instructions g)) \<union> set (targets_of (instructions g))"
      if "label_names_below ?k (instructions g)"
      using that fresh_below[of _ ?k ?k] fresh_below[of _ ?k "Suc ?k"]
      unfolding label_names_below_def by simp_all
    have gi: "instructions g6 = instructions g @ expr_code condition g @
        [IRIfFalseGoto (fst (visit_expr condition g)) (label_name (Suc ?k)), IRLabel (label_name ?k)]"
      by (simp add: g6_def emit_def new_label_def visit_expr_instructions)
    show ?thesis
      unfolding None
      using le f1 f2 pl old inv[unfolded None]
      by (simp add: split_beta Let_def g6 eqs(1) visit_stmt_instructions gi
          eval_nat_numeral del: visit_stmt.simps)
  next
    case (Some eb)
    define g6 where "g6 = emit (IRLabel (label_name ?k))
             (emit (IRIfFalseGoto (fst (visit_expr condition g)) (label_name (Suc (Suc ?k))))
               (snd (new_label (snd (new_label (snd (new_label (snd (visit_expr condition g)))))))))"
    define g8 where "g8 = emit (IRLabel (label_name (Suc (Suc ?k))))
                (emit (IRGoto (label_name (Suc ?k))) (visit_stmt then_block g6))"
    note eqs = visit_If_Some[OF g6_def g8_def]
    have g6: "emit (IRLabel (label_name ?k))
        (emit (IRIfFalseGoto (fst (visit_expr condition g)) (label_name (Suc (Suc ?k))))
           ((snd (visit_expr condition g))\<lparr>label_count := Suc (Suc (Suc ?k))\<rparr>)) = g6"
      by (simp add: g6_def emit_def new_label_def)
    from stmt_labelled[of g6 then_block] eqs(3)
    have le1: "?k + 3 \<le> label_count (visit_stmt then_block g6)"
      and lab1: "labelled (?k + 3) (label_count (visit_stmt then_block g6)) (stmt_code then_block g6)"
      by simp_all
    note nm1 = labelled_names[OF lab1]
    from stmt_labelled[of g8 eb] eqs(5)
    have le2: "label_count (visit_stmt then_block g6) \<le> label_count (visit_stmt eb g8)"
      and lab2: "labelled (label_count (visit_stmt then_block g6)) (label_count (visit_stmt eb g8))
                   (stmt_code eb g8)"
      by simp_all
    note nm2 = labelled_names[OF lab2]
    have f1: "label_name ?k \<notin> set (labels_of (stmt_code then_block g6)) \<union>
                set (targets_of (stmt_code then_block g6))"
      "label_name (Suc ?k) \<notin> set (labels_of (stmt_code then_block g6)) \<union>
                set (targets_of (stmt_code then_block g6))"
      "label_name (Suc (Suc ?k)) \<notin> set (labels_of (stmt_code then_block g6)) \<union>
                set (targets_of (stmt_code then_block g6))"
      using fresh_above[OF nm1, of ?k] fresh_above[OF nm1, of "Suc ?k"]
        fresh_above[OF nm1, of "Suc (Suc ?k)"] by simp_all
    have f2: "label_name ?k \<notin> set (labels_of (stmt_code eb g8)) \<union> set (targets_of (stmt_code eb g8))"
      "label_name (Suc ?k) \<notin> set (labels_of (stmt_code eb g8)) \<union> set (targets_of (stmt_code eb g8))"
      "label_name (Suc (Suc ?k)) \<notin> set (labels_of (stmt_code eb g8)) \<union> set (targets_of (stmt_code eb g8))"
      using fresh_above[OF nm2, of ?k] fresh_above[OF nm2, of "Suc ?k"]
        fresh_above[OF nm2, of "Suc (Suc ?k)"] le1 by simp_all
    have old: "label_name ?k \<notin> set (labels_of (instructions g)) \<union> set (targets_of (instructions g))"
        "label_name (Suc ?k) \<notin> set (labels_of (instructions g)) \<union> set (targets_of (instructions g))"
        "label_name (Suc (Suc ?k)) \<notin> set (labels_of (instructions g)) \<union> set (targets_of (instructions g))"
      if "label_names_below ?k (instructions g)"
      using that fresh_below[of _ ?k ?k] fresh_below[of _ ?k "Suc ?k"] fresh_below[of _ ?k "Suc (Suc ?k)"]
      unfolding label_names_below_def by simp_all
    have g8': "emit (IRLabel (label_name (Suc (Suc ?k))))
                (emit (IRGoto (label_name (Suc ?k))) (visit_stmt then_block g6)) = g8"
      by (simp add: g8_def)
    have gi: "instructions g6 = instructions g @ expr_code condition g @
        [IRIfFalseGoto (fst (visit_expr condition g)) (label_name (Suc (Suc ?k))),
         IRLabel (label_name ?k)]"
      by (simp add: g6_def emit_def new_label_def visit_expr_instructions)
    have gi8: "instructions g8 = instructions (visit_stmt then_block g6) @
        [IRGoto (label_name (Suc ?k)), IRLabel (label_name (Suc (Suc ?k)))]"
      by (simp add: g8_def emit_def)
    show ?thesis
      unfolding Some
      using le1 le2 f1 f2 pl old inv[unfolded Some]
      by (simp add: split_beta Let_def g6 g8' eqs(1) visit_stmt_instructions gi gi8
          eval_nat_numeral del: visit_stmt.simps)
  qed
qed

theorem visit_if_lowering_witness:
  "label_names_below
     (label_count (visit_stmt (IfStmt (Var ''a'') (Assign ''y'' (Num (IntV 1))) None) init_irgen))
     (instructions (visit_stmt (IfStmt (Var ''a'') (Assign ''y'' (Num (IntV 1))) None) init_irgen)) \<and>
   instructions (visit_stmt (IfStmt (BinOp (Var ''x'') ''<'' (Num (IntV 1)))
         (Block [Assign ''y'' (Num (IntV 2))]) (Some (Block [Assign ''y'' (Num (IntV 3))])))
       (visit_stmt (IfStmt (Var ''a'') (Assign ''y'' (Num (IntV 1))) None) init_irgen))
   = [IRIfFalseGoto ''a'' ''L1'', IRLabel ''L0'', IRAssign ''y'' ''1'', IRLabel ''L1'',
      IRBinOp ''t0'' ''x'' ''<'' ''1'', IRIfFalseGoto ''t0'' ''L4'', IRLabel ''L2'',
      IRAssign ''y'' ''2'', IRGoto ''L3'', IRLabel ''L4'', IRAssign ''y'' ''3'', IRLabel ''L3''] \<and>
   label_count (visit_stmt (IfStmt (BinOp (Var ''x'') ''<'' (Num (IntV 1)))
         (Block [Assign ''y'' (Num (IntV 2))]) (Some (Block [Assign ''y'' (Num (IntV 3))])))
       (visit_stmt (IfStmt (Var ''a'') (Assign ''y'' (Num (IntV 1))) None) init_irgen)) = 5 \<and>
   label_names_below
     (label_count (visit_stmt (IfStmt (BinOp (Var ''x'') ''<'' (Num (IntV 1)))
         (Block [Assign ''y'' (Num (IntV 2))]) (Some (Block [Assign ''y'' (Num (IntV 3))])))
       (visit_stmt (IfStmt (Var ''a'') (Assign ''y'' (Num (IntV 1))) None) init_irgen)))
     (instructions (visit_stmt (IfStmt (BinOp (Var ''x'') ''<'' (Num (IntV 1)))
         (Block [Assign ''y'' (Num (IntV 2))]) (Some (Block [Assign ''y'' (Num (IntV 3))])))
       (visit_stmt (IfStmt (Var ''a'') (Assign ''y'' (Num (IntV 1))) None) init_irgen)))"
proof -
  let ?g = "visit_stmt (IfStmt (Var ''a'') (Assign ''y'' (Num (IntV 1))) None) init_irgen"
  have hyp: "label_names_below (label_count ?g) (instructions ?g)"
    unfolding label_names_below_def by code_simp
  have run: "instructions (visit_stmt (IfStmt (BinOp (Var ''x'') ''<'' (Num (IntV 1)))
         (Block [Assign ''y'' (Num (IntV 2))]) (Some (Block [Assign ''y'' (Num (IntV 3))]))) ?g)
   = [IRIfFalseGoto ''a'' ''L1'', IRLabel ''L0'', IRAssign ''y'' ''1'', IRLabel ''L1'',
      IRBinOp ''t0'' ''x'' ''<'' ''1'', IRIfFalseGoto ''t0'' ''L4'', IRLabel ''L2'',
      IRAssign ''y'' ''2'', IRGoto ''L3'', IRLabel ''L4'', IRAssign ''y'' ''3'', IRLabel ''L3'']"
    by code_simp
  have cnt: "label_count (visit_stmt (IfStmt (BinOp (Var ''x'') ''<'' (Num (IntV 1)))
         (Block [Assign ''y'' (Num (IntV 2))]) (Some (Block [Assign ''y'' (Num (IntV 3))]))) ?g) = 5"
    by code_simp
  note inst = visit_if_lowering[of "BinOp (Var ''x'') ''<'' (Num (IntV 1))" ?g
      "Some (Block [Assign ''y'' (Num (IntV 3))])" "Block [Assign ''y'' (Num (IntV 2))]",
      unfolded Let_def split_beta]
  note inv = inst[THEN conjunct2, THEN conjunct2, THEN conjunct2, THEN conjunct2, THEN conjunct2,
      THEN conjunct2, THEN mp, OF hyp, THEN conjunct2]
  show ?thesis
    by (intro conjI hyp run cnt inv)
qed

section \<open>Labels and temporaries of a whole program\<close>

subsection \<open>Destinations and sources of instructions\<close>

fun dest_of :: "ir_instr \<Rightarrow> string list" where
  "dest_of (IRAssign d s) = [d]"
| "dest_of (IRBinOp d l op r) = [d]"
| "dest_of (IRUnaryOp d op e) = [d]"
| "dest_of (IRCall d f args) = (case d of None \<Rightarrow> [] | Some t \<Rightarrow> [t])"
| "dest_of _ = []"

fun srcs_of :: "ir_instr \<Rightarrow> string list" where
  "srcs_of (IRAssign d s) = [s]"
| "srcs_of (IRBinOp d l op r) = [l, r]"
| "srcs_of (IRUnaryOp d op e) = [e]"
| "srcs_of (IRIfFalseGoto c l) = [c]"
| "srcs_of (IRCall d f args) = args"
| "srcs_of (IRReturn v) = (case v of None \<Rightarrow> [] | Some s \<Rightarrow> [s])"
| "srcs_of (IRParam v) = [v]"
| "srcs_of _ = []"

definition dests_of :: "ir_instr list \<Rightarrow> string list" where
  "dests_of is = concat (map dest_of is)"

text \<open>A name spelled like a temporary: \<^verbatim>\<open>t\<close> and decimal digits.\<close>

definition dec_digit :: "char \<Rightarrow> bool" where
  "dec_digit c = (c \<in> set ''0123456789'')"

definition is_temp :: "string \<Rightarrow> bool" where
  "is_temp s = (case s of [] \<Rightarrow> False
                | c # ds \<Rightarrow> c = CHR ''t'' \<and> ds \<noteq> [] \<and> list_all dec_digit ds)"

text \<open>
  Every temporary an instruction reads is the destination of an earlier instruction;
  \<open>D\<close> holds the destinations met so far.
\<close>

fun uses_ok :: "string set \<Rightarrow> ir_instr list \<Rightarrow> bool" where
  "uses_ok D [] = True"
| "uses_ok D (x # xs) =
     (list_all (\<lambda>s. is_temp s \<longrightarrow> s \<in> D) (srcs_of x) \<and> uses_ok (D \<union> set (dest_of x)) xs)"

text \<open>The operand names an expression takes from the program: its variables and the text of its float literals.\<close>

fun expr_names :: "expr \<Rightarrow> string list" where
  "expr_names (Num v) = (case v of IntV i \<Rightarrow> [] | FloatV s \<Rightarrow> [s])"
| "expr_names (String v) = []"
| "expr_names (Var name) = [name]"
| "expr_names (UnaryOp op e) = expr_names e"
| "expr_names (BinOp l op r) = expr_names l @ expr_names r"
| "expr_names (FuncCall name args) = concat (map expr_names args)"

lemma dests_of_simps [simp]:
  "dests_of [] = []" "dests_of (x # xs) = dest_of x @ dests_of xs"
  "dests_of (xs @ ys) = dests_of xs @ dests_of ys"
  by (simp_all add: dests_of_def)

lemma digit_char_digit: "d < 10 \<Longrightarrow> dec_digit (digit_char d)"
proof -
  assume "d < 10"
  then have "d = 0 \<or> d = Suc 0 \<or> d = 2 \<or> d = 3 \<or> d = 4 \<or> d = 5 \<or> d = 6 \<or> d = 7 \<or> d = 8 \<or> d = 9"
    by arith
  then show ?thesis by (elim disjE) (simp_all add: dec_digit_def)
qed

lemma str_nat_digits: "list_all dec_digit (str_nat n)"
proof (induction n rule: str_nat.induct)
  case (1 n)
  show ?case
  proof (cases "n < 10")
    case True
    then show ?thesis using digit_char_digit[of n] by (subst str_nat.simps) simp
  next
    case False
    with 1 digit_char_digit[of "n mod 10"] show ?thesis by (subst str_nat.simps) simp
  qed
qed

lemma str_nat_nonempty [simp]: "str_nat n \<noteq> []"
  using str_nat_last[of n] by simp

lemma is_temp_temp_name [simp]: "is_temp (temp_name k)"
  by (simp add: is_temp_def temp_name_def str_nat_digits)

lemma not_temp_string_name [simp]: "\<not> is_temp (string_name k)"
  by (simp add: is_temp_def string_name_def)

lemma not_temp_str_int [simp]: "\<not> is_temp (str_int i)"
proof -
  have "hd (str_nat n) \<noteq> CHR ''t''" for n
    using str_nat_digits[of n] str_nat_nonempty[of n] by (cases "str_nat n") (auto simp: dec_digit_def)
  then have "str_nat n = c # ds \<Longrightarrow> c \<noteq> CHR ''t''" for n c ds
    by (metis list.sel(1))
  then show ?thesis
    by (auto simp: is_temp_def str_int_def split: list.splits)
qed

lemma uses_ok_append:
  "uses_ok D (xs @ ys) = (uses_ok D xs \<and> uses_ok (D \<union> set (dests_of xs)) ys)"
  by (induction xs arbitrary: D) (simp_all add: Un_assoc)

lemma uses_ok_mono: "uses_ok D xs \<Longrightarrow> D \<subseteq> D' \<Longrightarrow> uses_ok D' xs"
proof (induction xs arbitrary: D D')
  case Nil
  show ?case by simp
next
  case (Cons x xs)
  from Cons.prems have "uses_ok (D \<union> set (dest_of x)) xs" "D \<union> set (dest_of x) \<subseteq> D' \<union> set (dest_of x)"
    by auto
  from Cons.IH[OF this] Cons.prems show ?case
    by (auto simp: list_all_iff)
qed

subsection \<open>The temporaries of a piece of code\<close>

text \<open>
  Code generated while the counter of temporaries goes from \<open>lo\<close> to \<open>hi\<close>: its
  destinations spelled like temporaries are \<open>t\<close>\<open>lo\<close>, ..., \<open>t\<close>\<open>hi - 1\<close>, each once and in
  this order, and it reads no temporary before its definition.
\<close>

definition temped :: "nat \<Rightarrow> nat \<Rightarrow> ir_instr list \<Rightarrow> bool" where
  "temped lo hi E = (lo \<le> hi \<and> filter is_temp (dests_of E) = map temp_name [lo..<hi] \<and>
                     uses_ok {} E)"

definition operand_ok :: "string \<Rightarrow> ir_instr list \<Rightarrow> bool" where
  "operand_ok r E = (is_temp r \<longrightarrow> r \<in> set (dests_of E))"

definition str_inv :: "irgen \<Rightarrow> bool" where
  "str_inv g = list_all (\<lambda>(v, n). \<not> is_temp n) (string_literals g)"

lemma temped_Nil [simp]: "temped lo lo []"
  by (simp add: temped_def)

lemma temped_append:
  assumes "temped lo mid E1" and "temped mid hi E2"
  shows "temped lo hi (E1 @ E2)"
proof -
  from assms have le: "lo \<le> mid" "mid \<le> hi" by (simp_all add: temped_def)
  then have "[lo..<hi] = [lo..<mid] @ [mid..<hi]"
    by (metis le_Suc_ex upt_add_eq_append)
  moreover have "uses_ok (set (dests_of E1)) E2"
    using assms(2) uses_ok_mono[of "{}" E2] by (simp add: temped_def)
  ultimately show ?thesis
    using assms le by (simp add: temped_def uses_ok_append)
qed

lemma uses_ok_snoc:
  assumes "uses_ok {} E" and "list_all (\<lambda>s. operand_ok s E) (srcs_of x)"
  shows "uses_ok {} (E @ [x])"
  using assms by (simp add: uses_ok_append operand_ok_def)

lemma temped_snoc_temp:
  assumes "temped lo hi E" and "dest_of x = [temp_name hi]"
    and "list_all (\<lambda>s. operand_ok s E) (srcs_of x)"
  shows "temped lo (Suc hi) (E @ [x])"
  using assms uses_ok_snoc[of E x] by (simp add: temped_def)

lemma temped_snoc_plain:
  assumes "temped lo hi E" and "list_all (\<lambda>d. \<not> is_temp d) (dest_of x)"
    and "list_all (\<lambda>s. operand_ok s E) (srcs_of x)"
  shows "temped lo hi (E @ [x])"
proof -
  from assms(2) have "filter is_temp (dest_of x) = []"
    by (simp add: list_all_iff filter_empty_conv)
  with assms uses_ok_snoc[of E x] show ?thesis by (simp add: temped_def)
qed

lemma operand_ok_append:
  "operand_ok r E1 \<Longrightarrow> operand_ok r (E1 @ E2)"
  "operand_ok r E2 \<Longrightarrow> operand_ok r (E1 @ E2)"
  by (auto simp: operand_ok_def)

lemma operand_ok_plain: "\<not> is_temp r \<Longrightarrow> operand_ok r E"
  by (simp add: operand_ok_def)

lemma operand_ok_last: "dest_of x = [r] \<Longrightarrow> operand_ok r (E @ [x])"
  by (simp add: operand_ok_def)

lemma new_string_ok:
  assumes "str_inv g"
  shows "\<not> is_temp (fst (new_string v g)) \<and> str_inv (snd (new_string v g)) \<and>
         temp_count (snd (new_string v g)) = temp_count g"
proof (cases "map_of (string_literals g) v")
  case None
  with assms show ?thesis by (simp add: new_string_def str_inv_def Let_def)
next
  case (Some n)
  then have "(v, n) \<in> set (string_literals g)" by (rule map_of_SomeD)
  with assms have "\<not> is_temp n" by (auto simp: str_inv_def list_all_iff)
  with Some assms show ?thesis by (simp add: new_string_def)
qed

lemma str_inv_emit [simp]: "str_inv (emit i g) = str_inv g"
  by (simp add: str_inv_def)

lemma str_inv_new_temp [simp]: "str_inv (snd (new_temp g)) = str_inv g"
  by (simp add: str_inv_def new_temp_def)

lemma str_inv_new_label [simp]: "str_inv (snd (new_label g)) = str_inv g"
  by (simp add: str_inv_def new_label_def)

fun stmt_names :: "stmt \<Rightarrow> string list" where
  "stmt_names (Block statements) = concat (map stmt_names statements)"
| "stmt_names (Decl name init) = name # (case init of None \<Rightarrow> [] | Some e \<Rightarrow> expr_names e)"
| "stmt_names (Assign name e) = name # expr_names e"
| "stmt_names (Return ex) = (case ex of None \<Rightarrow> [] | Some e \<Rightarrow> expr_names e)"
| "stmt_names (IfStmt c tb eb) =
     expr_names c @ stmt_names tb @ (case eb of None \<Rightarrow> [] | Some s \<Rightarrow> stmt_names s)"
| "stmt_names (WhileStmt c b) = expr_names c @ stmt_names b"
| "stmt_names (ForStmt init c step b) =
     stmt_names init @ expr_names c @ stmt_names step @ stmt_names b"
| "stmt_names (ExprStmt e) = expr_names e"

fun item_names :: "item \<Rightarrow> string list" where
  "item_names (FuncDecl return_type name params body) = stmt_names body"
| "item_names (TopStmt s) = stmt_names s"

fun program_names :: "program \<Rightarrow> string list" where
  "program_names (Program items) = concat (map item_names items)"

definition plain_names :: "string list \<Rightarrow> bool" where
  "plain_names ns = list_all (\<lambda>n. \<not> is_temp n) ns"

lemma plain_names_simps [simp]:
  "plain_names []" "plain_names (n # ns) = (\<not> is_temp n \<and> plain_names ns)"
  "plain_names (ms @ ns) = (plain_names ms \<and> plain_names ns)"
  by (simp_all add: plain_names_def)

lemma plain_names_concat: "plain_names (concat nss) = list_all plain_names nss"
  by (induction nss) simp_all

text \<open>Expressions: each node that allocates a temporary defines it at once, after its operands.\<close>

lemma expr_temped:
  "plain_names (expr_names e) \<Longrightarrow> str_inv g \<Longrightarrow>
     temped (temp_count g) (temp_count (snd (visit_expr e g))) (expr_code e g) \<and>
     operand_ok (fst (visit_expr e g)) (expr_code e g) \<and> str_inv (snd (visit_expr e g))"
  "plain_names (concat (map expr_names as)) \<Longrightarrow> str_inv g \<Longrightarrow>
     temped (temp_count g) (temp_count (snd (visit_args as ts g))) (args_code as ts g) \<and>
     (\<exists>rs. fst (visit_args as ts g) = ts @ rs \<and>
           list_all (\<lambda>r. operand_ok r (args_code as ts g)) rs) \<and>
     str_inv (snd (visit_args as ts g))"
proof (induction e g and as ts g rule: visit_expr_visit_args.induct)
  case (1 v g)
  then show ?case
    by (cases v) (simp_all add: operand_ok_def str_num_def)
next
  case (2 v g)
  then show ?case
    using new_string_ok[of g v] by (simp add: operand_ok_def)
next
  case (3 name g)
  then show ?case by (simp add: operand_ok_def)
next
  case (4 l op r g)
  define g1 where "g1 = snd (visit_expr l g)"
  define g2 where "g2 = snd (visit_expr r g1)"
  note eqs = visit_BinOp[OF g1_def g2_def, of op]
  from 4(3) have nl: "plain_names (expr_names l)" and nr: "plain_names (expr_names r)" by simp_all
  from 4(1)[OF nl 4(4)]
  have t1: "temped (temp_count g) (temp_count g1) (expr_code l g)"
    and o1: "operand_ok (fst (visit_expr l g)) (expr_code l g)" and s1: "str_inv g1"
    by (simp_all add: g1_def)
  from 4(2)[OF refl prod.collapse nr] s1
  have t2: "temped (temp_count g1) (temp_count g2) (expr_code r g1)"
    and o2: "operand_ok (fst (visit_expr r g1)) (expr_code r g1)" and s2: "str_inv g2"
    by (simp_all add: g1_def g2_def)
  let ?x = "IRBinOp (temp_name (temp_count g2)) (fst (visit_expr l g)) op (fst (visit_expr r g1))"
  have t12: "temped (temp_count g) (temp_count g2) (expr_code l g @ expr_code r g1)"
    by (rule temped_append[OF t1 t2])
  have "temped (temp_count g) (Suc (temp_count g2)) ((expr_code l g @ expr_code r g1) @ [?x])"
    by (rule temped_snoc_temp[OF t12]) (simp_all add: operand_ok_append o1 o2)
  moreover have "operand_ok (temp_name (temp_count g2)) ((expr_code l g @ expr_code r g1) @ [?x])"
    by (rule operand_ok_last) simp
  ultimately show ?case
    unfolding eqs using s2 by simp
next
  case (5 op e g)
  define g1 where "g1 = snd (visit_expr e g)"
  note eqs = visit_UnaryOp[OF g1_def, of op]
  from 5(2) have ne: "plain_names (expr_names e)" by simp
  from 5(1)[OF ne 5(3)]
  have t1: "temped (temp_count g) (temp_count g1) (expr_code e g)"
    and o1: "operand_ok (fst (visit_expr e g)) (expr_code e g)" and s1: "str_inv g1"
    by (simp_all add: g1_def)
  let ?x = "IRUnaryOp (temp_name (temp_count g1)) op (fst (visit_expr e g))"
  have "temped (temp_count g) (Suc (temp_count g1)) (expr_code e g @ [?x])"
    by (rule temped_snoc_temp[OF t1]) (simp_all add: o1)
  moreover have "operand_ok (temp_name (temp_count g1)) (expr_code e g @ [?x])"
    by (rule operand_ok_last) simp
  ultimately show ?case
    unfolding eqs using s1 by simp
next
  case (6 name args g)
  define g1 where "g1 = snd (visit_args args [] g)"
  note eqs = visit_FuncCall[OF g1_def, of name]
  from 6(2) have na: "plain_names (concat (map expr_names args))" by simp
  from 6(1)[OF na 6(3)]
  have t1: "temped (temp_count g) (temp_count g1) (args_code args [] g)"
    and o1: "list_all (\<lambda>r. operand_ok r (args_code args [] g)) (fst (visit_args args [] g))"
    and s1: "str_inv g1"
    by (auto simp: g1_def)
  let ?x = "IRCall (Some (temp_name (temp_count g1))) name (fst (visit_args args [] g))"
  have "temped (temp_count g) (Suc (temp_count g1)) (args_code args [] g @ [?x])"
    by (rule temped_snoc_temp[OF t1]) (simp_all add: o1)
  moreover have "operand_ok (temp_name (temp_count g1)) (args_code args [] g @ [?x])"
    by (rule operand_ok_last) simp
  ultimately show ?case
    unfolding eqs using s1 by simp
next
  case (7 arg_temps g)
  then show ?case by simp
next
  case (8 arg rest arg_temps g)
  define g2 where "g2 = emit (IRParam (fst (visit_expr arg g))) (snd (visit_expr arg g))"
  note eqs = visit_args_Cons[OF g2_def, of rest arg_temps]
  from 8(3) have na: "plain_names (expr_names arg)"
    and nr: "plain_names (concat (map expr_names rest))" by simp_all
  from 8(1)[OF na 8(4)]
  have t1: "temped (temp_count g) (temp_count (snd (visit_expr arg g))) (expr_code arg g)"
    and o1: "operand_ok (fst (visit_expr arg g)) (expr_code arg g)"
    and s1: "str_inv (snd (visit_expr arg g))"
    by simp_all
  let ?ts = "arg_temps @ [fst (visit_expr arg g)]"
  have s2: "str_inv g2" using s1 by (simp add: g2_def)
  have c2: "temp_count g2 = temp_count (snd (visit_expr arg g))" by (simp add: g2_def)
  from 8(2)[OF refl prod.collapse nr] s2
  have t2: "temped (temp_count g2) (temp_count (snd (visit_args rest ?ts g2))) (args_code rest ?ts g2)"
    and s3: "str_inv (snd (visit_args rest ?ts g2))"
    and "\<exists>rs. fst (visit_args rest ?ts g2) = ?ts @ rs \<and>
           list_all (\<lambda>r. operand_ok r (args_code rest ?ts g2)) rs"
    by (simp_all add: g2_def)
  then obtain rs where rs: "fst (visit_args rest ?ts g2) = ?ts @ rs"
    "list_all (\<lambda>r. operand_ok r (args_code rest ?ts g2)) rs" by blast
  let ?p = "IRParam (fst (visit_expr arg g))"
  have tp: "temped (temp_count g) (temp_count g2) (expr_code arg g @ [?p])"
    unfolding c2 by (rule temped_snoc_plain[OF t1]) (simp_all add: o1)
  have tt: "temped (temp_count g) (temp_count (snd (visit_args rest ?ts g2)))
      ((expr_code arg g @ [?p]) @ args_code rest ?ts g2)"
    by (rule temped_append[OF tp t2])
  let ?E = "expr_code arg g @ [?p] @ args_code rest ?ts g2"
  have "operand_ok (fst (visit_expr arg g)) ?E"
    using o1 by (rule operand_ok_append(1))
  moreover have "list_all (\<lambda>r. operand_ok r ?E) rs"
    using rs(2) by (auto simp: list_all_iff operand_ok_def)
  ultimately have "fst (visit_args rest ?ts g2) = arg_temps @ (fst (visit_expr arg g) # rs) \<and>
      list_all (\<lambda>r. operand_ok r ?E) (fst (visit_expr arg g) # rs)"
    using rs(1) by simp
  then have ex: "\<exists>rs'. fst (visit_args rest ?ts g2) = arg_temps @ rs' \<and>
      list_all (\<lambda>r. operand_ok r ?E) rs'" by blast
  show ?case
    unfolding eqs using tt s3 ex by simp
qed

lemma temped_label: "temped lo hi E \<Longrightarrow> temped lo hi (E @ [IRLabel l])"
  by (rule temped_snoc_plain) simp_all

lemma temped_goto: "temped lo hi E \<Longrightarrow> temped lo hi (E @ [IRGoto l])"
  by (rule temped_snoc_plain) simp_all

lemma temped_cond: "temped lo hi E \<Longrightarrow> operand_ok r E \<Longrightarrow> temped lo hi (E @ [IRIfFalseGoto r l])"
  by (rule temped_snoc_plain) simp_all

lemma temped_if_none:
  assumes "temped lo m Ec" and "operand_ok r Ec" and "temped m hi Ct"
  shows "temped lo hi (Ec @ [IRIfFalseGoto r l1, IRLabel l0] @ Ct @ [IRLabel l1])"
proof -
  note temped_label[OF temped_cond[OF assms(1,2)], of l1 l0]
  note temped_label[OF temped_append[OF this assms(3)], of l1]
  then show ?thesis by simp
qed

lemma temped_if_some:
  assumes "temped lo m Ec" and "operand_ok r Ec" and "temped m hi Ct" and "temped hi hi2 Ce"
  shows "temped lo hi2 (Ec @ [IRIfFalseGoto r l2, IRLabel l0] @ Ct @ [IRGoto l1, IRLabel l2] @
           Ce @ [IRLabel l1])"
proof -
  note temped_label[OF temped_cond[OF assms(1,2)], of l2 l0]
  note temped_label[OF temped_goto[OF temped_append[OF this assms(3)], of l1], of l2]
  note temped_label[OF temped_append[OF this assms(4)], of l1]
  then show ?thesis by simp
qed

lemma temped_loop:
  assumes "temped lo m Ec" and "operand_ok r Ec" and "temped m hi Cb"
  shows "temped lo hi ([IRLabel a] @ Ec @ [IRIfFalseGoto r c, IRLabel b] @ Cb @ [IRGoto a, IRLabel c])"
proof -
  have "temped lo lo ([] @ [IRLabel a])" by (rule temped_label) simp
  from temped_append[OF this assms(1)] have t1: "temped lo m ([IRLabel a] @ Ec)" by simp
  have o: "operand_ok r ([IRLabel a] @ Ec)" using assms(2) by (rule operand_ok_append(2))
  note temped_label[OF temped_cond[OF t1 o], of c b]
  note temped_label[OF temped_goto[OF temped_append[OF this assms(3)], of a], of c]
  then show ?thesis by simp
qed

text \<open>Statements: the destinations of \<^verbatim>\<open>IRAssign\<close> are the program's variables.\<close>

lemma stmt_temped:
  "plain_names (stmt_names s) \<Longrightarrow> str_inv g \<Longrightarrow>
   temped (temp_count g) (temp_count (visit_stmt s g)) (stmt_code s g) \<and> str_inv (visit_stmt s g)"
proof (induction s arbitrary: g)
  case (Decl name init)
  show ?case
  proof (cases init)
    case None
    with Decl show ?thesis by (simp add: code_Decl)
  next
    case (Some e)
    with Decl.prems have ne: "plain_names (expr_names e)" and nn: "\<not> is_temp name" by simp_all
    note ex = expr_temped(1)[OF ne Decl.prems(2)]
    have "temped (temp_count g) (temp_count (snd (visit_expr e g)))
            (expr_code e g @ [IRAssign name (fst (visit_expr e g))])"
      by (rule temped_snoc_plain) (use ex nn in simp_all)
    with ex Some show ?thesis by (simp add: code_Decl split_beta)
  qed
next
  case (Assign name e)
  from Assign.prems have ne: "plain_names (expr_names e)" and nn: "\<not> is_temp name" by simp_all
  note ex = expr_temped(1)[OF ne Assign.prems(2)]
  have "temped (temp_count g) (temp_count (snd (visit_expr e g)))
          (expr_code e g @ [IRAssign name (fst (visit_expr e g))])"
    by (rule temped_snoc_plain) (use ex nn in simp_all)
  with ex show ?case by (simp add: code_Assign split_beta)
next
  case (Return ex)
  show ?case
  proof (cases ex)
    case None
    have "temped (temp_count g) (temp_count g) ([] @ [IRReturn None])"
      by (rule temped_snoc_plain) simp_all
    with None Return.prems show ?thesis by (simp add: code_Return)
  next
    case (Some e)
    with Return.prems have ne: "plain_names (expr_names e)" by simp
    note ex = expr_temped(1)[OF ne Return.prems(2)]
    have "temped (temp_count g) (temp_count (snd (visit_expr e g)))
            (expr_code e g @ [IRReturn (Some (fst (visit_expr e g)))])"
      by (rule temped_snoc_plain) (use ex in simp_all)
    with ex Some show ?thesis by (simp add: code_Return split_beta)
  qed
next
  case (ExprStmt e)
  from ExprStmt.prems have ne: "plain_names (expr_names e)" by simp
  from expr_temped(1)[OF ne ExprStmt.prems(2)] show ?case
    by (simp add: code_ExprStmt)
next
  case (IfStmt c tb eb)
  from IfStmt.prems have nc: "plain_names (expr_names c)" and nt: "plain_names (stmt_names tb)"
    by simp_all
  note ex = expr_temped(1)[OF nc IfStmt.prems(2)]
  show ?case
  proof (cases eb)
    case None
    define g6 where "g6 = emit (IRLabel (label_name (label_count g)))
             (emit (IRIfFalseGoto (fst (visit_expr c g)) (label_name (Suc (label_count g))))
               (snd (new_label (snd (new_label (snd (visit_expr c g)))))))"
    note eqs = visit_If_None[OF g6_def]
    have s6: "str_inv g6" using ex by (simp add: g6_def)
    from IfStmt(1)[OF nt s6] eqs(4)
    have tt: "temped (temp_count (snd (visit_expr c g))) (temp_count (visit_stmt tb g6)) (stmt_code tb g6)"
      and st: "str_inv (visit_stmt tb g6)" by simp_all
    have "temped (temp_count g) (temp_count (visit_stmt tb g6)) (stmt_code (IfStmt c tb None) g)"
      unfolding eqs(2) by (rule temped_if_none[OF _ _ tt]) (use ex in simp_all)
    with st show ?thesis unfolding None eqs(1) by simp
  next
    case (Some e)
    with IfStmt.prems have ne: "plain_names (stmt_names e)" by simp
    define g6 where "g6 = emit (IRLabel (label_name (label_count g)))
             (emit (IRIfFalseGoto (fst (visit_expr c g)) (label_name (Suc (Suc (label_count g)))))
               (snd (new_label (snd (new_label (snd (new_label (snd (visit_expr c g)))))))))"
    define g8 where "g8 = emit (IRLabel (label_name (Suc (Suc (label_count g)))))
                (emit (IRGoto (label_name (Suc (label_count g)))) (visit_stmt tb g6))"
    note eqs = visit_If_Some[OF g6_def g8_def]
    have s6: "str_inv g6" using ex by (simp add: g6_def)
    from IfStmt(1)[OF nt s6] eqs(4)
    have tt: "temped (temp_count (snd (visit_expr c g))) (temp_count (visit_stmt tb g6)) (stmt_code tb g6)"
      and st: "str_inv (visit_stmt tb g6)" by simp_all
    have s8: "str_inv g8" using st by (simp add: g8_def)
    from IfStmt(2)[of e g8, OF _ ne s8] Some eqs(6)
    have te: "temped (temp_count (visit_stmt tb g6)) (temp_count (visit_stmt e g8)) (stmt_code e g8)"
      and se: "str_inv (visit_stmt e g8)" by simp_all
    have "temped (temp_count g) (temp_count (visit_stmt e g8)) (stmt_code (IfStmt c tb (Some e)) g)"
      unfolding eqs(2) by (rule temped_if_some[OF _ _ tt te]) (use ex in simp_all)
    with se show ?thesis unfolding Some eqs(1) by simp
  qed
next
  case (WhileStmt c b)
  from WhileStmt.prems have nc: "plain_names (expr_names c)" and nb: "plain_names (stmt_names b)"
    by simp_all
  define g4 where "g4 = emit (IRLabel (label_name (label_count g)))
                  (snd (new_label (snd (new_label (snd (new_label g))))))"
  define g7 where "g7 = emit (IRLabel (label_name (Suc (label_count g))))
                (emit (IRIfFalseGoto (fst (visit_expr c g4)) (label_name (Suc (Suc (label_count g)))))
                  (snd (visit_expr c g4)))"
  note eqs = visit_While[OF g4_def g7_def]
  have s4: "str_inv g4" using WhileStmt.prems(2) by (simp add: g4_def)
  note ex = expr_temped(1)[OF nc s4, unfolded eqs(4)]
  have s7: "str_inv g7" using ex by (simp add: g7_def)
  from WhileStmt(1)[OF nb s7] eqs(5)
  have tb: "temped (temp_count (snd (visit_expr c g4))) (temp_count (visit_stmt b g7)) (stmt_code b g7)"
    and sb: "str_inv (visit_stmt b g7)" by simp_all
  have "temped (temp_count g) (temp_count (visit_stmt b g7)) (stmt_code (WhileStmt c b) g)"
    unfolding eqs(2) by (rule temped_loop[OF _ _ tb]) (use ex in simp_all)
  with sb show ?case unfolding eqs(1) by simp
next
  case (ForStmt init c step b)
  from ForStmt.prems have ni: "plain_names (stmt_names init)" and nc: "plain_names (expr_names c)"
    and ns: "plain_names (stmt_names step)" and nb: "plain_names (stmt_names b)"
    by simp_all
  define g0 where "g0 = visit_stmt init g"
  define g4 where "g4 = emit (IRLabel (label_name (label_count g0)))
                  (snd (new_label (snd (new_label (snd (new_label g0))))))"
  define g7 where "g7 = emit (IRLabel (label_name (Suc (label_count g0))))
                (emit (IRIfFalseGoto (fst (visit_expr c g4)) (label_name (Suc (Suc (label_count g0)))))
                  (snd (visit_expr c g4)))"
  define g8 where "g8 = visit_stmt b g7"
  note eqs = visit_For[OF g0_def g4_def g7_def g8_def]
  from ForStmt(1)[OF ni ForStmt.prems(2)]
  have t0: "temped (temp_count g) (temp_count g0) (stmt_code init g)" and s0: "str_inv g0"
    by (simp_all add: g0_def)
  have s4: "str_inv g4" using s0 by (simp add: g4_def)
  note ex = expr_temped(1)[OF nc s4, unfolded eqs(4)]
  have s7: "str_inv g7" using ex by (simp add: g7_def)
  from ForStmt(3)[OF nb s7] eqs(5)
  have tb: "temped (temp_count (snd (visit_expr c g4))) (temp_count g8) (stmt_code b g7)"
    and s8: "str_inv g8" by (simp_all add: g8_def)
  from ForStmt(2)[OF ns s8]
  have ts: "temped (temp_count g8) (temp_count (visit_stmt step g8)) (stmt_code step g8)"
    and ss: "str_inv (visit_stmt step g8)" by simp_all
  note body = temped_append[OF tb ts]
  have loop: "temped (temp_count g0) (temp_count (visit_stmt step g8))
      ([IRLabel (label_name (label_count g0))] @ expr_code c g4 @
           [IRIfFalseGoto (fst (visit_expr c g4)) (label_name (Suc (Suc (label_count g0)))),
            IRLabel (label_name (Suc (label_count g0)))] @
           (stmt_code b g7 @ stmt_code step g8) @
           [IRGoto (label_name (label_count g0)),
            IRLabel (label_name (Suc (Suc (label_count g0))))])"
    by (rule temped_loop[OF _ _ body]) (use ex in simp_all)
  have "temped (temp_count g) (temp_count (visit_stmt step g8)) (stmt_code (ForStmt init c step b) g)"
    using temped_append[OF t0 loop] by (simp only: eqs(2) append_assoc)
  with ss show ?case unfolding eqs(1) by simp
next
  case (Block ss)
  have "temped (temp_count g) (temp_count (visit_stmts ss g)) (stmts_code ss g) \<and>
        str_inv (visit_stmts ss g)"
    using Block
  proof (induction ss arbitrary: g)
    case Nil
    then show ?case by simp
  next
    case (Cons a ss)
    from Cons.prems(2) have na: "plain_names (stmt_names a)"
      and nr: "plain_names (stmt_names (Block ss))"
      by (simp_all add: plain_names_concat)
    from Cons.prems(1)[of a g, OF _ na Cons.prems(3)]
    have t1: "temped (temp_count g) (temp_count (visit_stmt a g)) (stmt_code a g)"
      and s1: "str_inv (visit_stmt a g)" by simp_all
    from Cons.IH[of "visit_stmt a g", OF _ nr s1] Cons.prems(1)
    have t2: "temped (temp_count (visit_stmt a g)) (temp_count (visit_stmts ss (visit_stmt a g)))
                   (stmts_code ss (visit_stmt a g))"
      and s2: "str_inv (visit_stmts ss (visit_stmt a g))"
      by simp_all
    from temped_append[OF t1 t2] s2 show ?case
      by (simp add: stmts_code_step)
  qed
  then show ?case by (simp add: code_Block)
qed

subsection \<open>Top-level items\<close>

definition item_code :: "item \<Rightarrow> irgen \<Rightarrow> ir_instr list" where
  "item_code it g = drop (length (instructions g)) (instructions (visit_item it g))"

text \<open>The code of each item of a program, in order; their concatenation is the program's IR.\<close>

fun item_codes :: "item list \<Rightarrow> irgen \<Rightarrow> ir_instr list list" where
  "item_codes [] g = []"
| "item_codes (it # its) g = item_code it g # item_codes its (visit_item it g)"

text \<open>
  The code of a function declaration is one \<^verbatim>\<open>FuncBegin\<close>...\<^verbatim>\<open>FuncEnd\<close> pair around code without
  such markers; the code of a top-level statement has no marker, it lies outside every pair.
\<close>

definition item_shape :: "item \<Rightarrow> ir_instr list \<Rightarrow> bool" where
  "item_shape it E =
     (case it of
        FuncDecl return_type name params body \<Rightarrow>
          2 \<le> length E \<and> hd E = IRFuncBegin name (map snd params) \<and> last E = IRFuncEnd name \<and>
          \<not> list_ex is_func_marker (butlast (tl E))
      | TopStmt s \<Rightarrow> \<not> list_ex is_func_marker E)"

definition jumps_inside :: "ir_instr list \<Rightarrow> bool" where
  "jumps_inside E = (set (targets_of E) \<subseteq> set (labels_of E))"

lemma item_code_FuncDecl:
  "item_code (FuncDecl rt name ps body) g =
     IRFuncBegin name (map snd ps) # stmt_code body (emit (IRFuncBegin name (map snd ps)) g) @
     [IRFuncEnd name]"
  by (simp add: item_code_def visit_stmt_instructions)

lemma item_code_TopStmt: "item_code (TopStmt s) g = stmt_code s g"
  by (simp add: item_code_def stmt_code_def)

lemma visit_item_instructions: "instructions (visit_item it g) = instructions g @ item_code it g"
proof (cases it)
  case (FuncDecl rt name ps body)
  show ?thesis unfolding FuncDecl item_code_FuncDecl
    by (simp add: visit_stmt_instructions)
next
  case (TopStmt s)
  show ?thesis unfolding TopStmt item_code_TopStmt
    by (simp add: visit_stmt_instructions)
qed

text \<open>Labels of an item: those allocated during its visit, each defined once, and no jump leaves.\<close>

definition label_range :: "nat \<Rightarrow> nat \<Rightarrow> ir_instr list \<Rightarrow> bool" where
  "label_range lo hi E = (lo \<le> hi \<and> distinct (labels_of E) \<and>
     set (labels_of E) = label_name ` {lo..<hi} \<and> set (targets_of E) \<subseteq> label_name ` {lo..<hi})"

lemma label_range_append:
  assumes "label_range a b E1" and "distinct (labels_of E2)"
    and "set (labels_of E2) = label_name ` {b..<c}" and "b \<le> c"
  shows "distinct (labels_of (E1 @ E2))" and "set (labels_of (E1 @ E2)) = label_name ` {a..<c}"
proof -
  from assms(1) have ab: "a \<le> b" by (simp add: label_range_def)
  have split: "{a..<c} = {a..<b} \<union> {b..<c}" using ab assms(4) by auto
  have disj: "label_name ` {a..<b} \<inter> label_name ` {b..<c} = {}" by auto
  from assms disj show "distinct (labels_of (E1 @ E2))"
    by (simp add: label_range_def)
  from assms show "set (labels_of (E1 @ E2)) = label_name ` {a..<c}"
    unfolding split image_Un by (simp add: label_range_def)
qed

lemma item_labelled:
  "label_range (label_count g) (label_count (visit_item it g)) (item_code it g) \<and>
   item_shape it (item_code it g)"
proof (cases it)
  case (FuncDecl rt name ps body)
  let ?g1 = "emit (IRFuncBegin name (map snd ps)) g"
  from stmt_labelled[of ?g1 body]
  have le: "label_count g \<le> label_count (visit_stmt body ?g1)"
    and lab: "labelled (label_count g) (label_count (visit_stmt body ?g1)) (stmt_code body ?g1)"
    by simp_all
  from lab le show ?thesis
    unfolding FuncDecl item_code_FuncDecl
    by (simp add: label_range_def labelled_def item_shape_def)
next
  case (TopStmt s)
  from stmt_labelled[of g s] show ?thesis
    unfolding TopStmt item_code_TopStmt
    by (simp add: label_range_def labelled_def item_shape_def)
qed

lemma item_temped:
  assumes "plain_names (item_names it)" and "str_inv g"
  shows "temped (temp_count g) (temp_count (visit_item it g)) (item_code it g) \<and>
         str_inv (visit_item it g)"
proof (cases it)
  case (FuncDecl rt name ps body)
  let ?b = "IRFuncBegin name (map snd ps)"
  let ?g1 = "emit ?b g"
  from assms FuncDecl have nb: "plain_names (stmt_names body)" and s1: "str_inv ?g1" by simp_all
  from stmt_temped[OF nb s1]
  have tb: "temped (temp_count g) (temp_count (visit_stmt body ?g1)) (stmt_code body ?g1)"
    and sb: "str_inv (visit_stmt body ?g1)" by simp_all
  have "temped (temp_count g) (temp_count g) ([] @ [?b])"
    by (rule temped_snoc_plain) simp_all
  from temped_append[OF this tb]
  have "temped (temp_count g) (temp_count (visit_stmt body ?g1)) ([?b] @ stmt_code body ?g1)"
    by simp
  then have "temped (temp_count g) (temp_count (visit_stmt body ?g1))
      (([?b] @ stmt_code body ?g1) @ [IRFuncEnd name])"
    by (rule temped_snoc_plain) simp_all
  with sb show ?thesis
    unfolding FuncDecl item_code_FuncDecl by simp
next
  case (TopStmt s)
  from assms TopStmt have "plain_names (stmt_names s)" by simp
  from stmt_temped[OF this assms(2)] show ?thesis
    unfolding TopStmt item_code_TopStmt by simp
qed

subsection \<open>The whole program\<close>

lemma items_instructions:
  "instructions (fold visit_item items g) = instructions g @ concat (item_codes items g)"
  by (induction items arbitrary: g) (simp_all add: visit_item_instructions)

lemma items_labelled:
  "label_range (label_count g) (label_count (fold visit_item items g)) (concat (item_codes items g)) \<and>
   list_all2 (\<lambda>it E. jumps_inside E \<and> item_shape it E) items (item_codes items g)"
proof (induction items arbitrary: g)
  case Nil
  show ?case by (simp add: label_range_def)
next
  case (Cons it items)
  let ?g1 = "visit_item it g"
  from item_labelled[of g it]
  have r1: "label_range (label_count g) (label_count ?g1) (item_code it g)"
    and sh: "item_shape it (item_code it g)" by simp_all
  from Cons[of ?g1]
  have r2: "label_range (label_count ?g1) (label_count (fold visit_item items ?g1))
              (concat (item_codes items ?g1))"
    and rest: "list_all2 (\<lambda>it E. jumps_inside E \<and> item_shape it E) items (item_codes items ?g1)"
    by simp_all
  from r1 have le1: "label_count g \<le> label_count ?g1" by (simp add: label_range_def)
  from r2 have le2: "label_count ?g1 \<le> label_count (fold visit_item items ?g1)"
    and d2: "distinct (labels_of (concat (item_codes items ?g1)))"
    and l2: "set (labels_of (concat (item_codes items ?g1))) =
               label_name ` {label_count ?g1..<label_count (fold visit_item items ?g1)}"
    and t2: "set (targets_of (concat (item_codes items ?g1))) \<subseteq>
               label_name ` {label_count ?g1..<label_count (fold visit_item items ?g1)}"
    by (simp_all add: label_range_def)
  note ap = label_range_append[OF r1 d2 l2 le2]
  have inside: "jumps_inside (item_code it g)"
    using r1 by (simp add: label_range_def jumps_inside_def)
  have t1: "set (targets_of (item_code it g)) \<subseteq>
      label_name ` {label_count g..<label_count (fold visit_item items ?g1)}"
    using r1 le2 by (auto simp: label_range_def)
  have t2': "set (targets_of (concat (item_codes items ?g1))) \<subseteq>
      label_name ` {label_count g..<label_count (fold visit_item items ?g1)}"
    using t2 le1 by auto
  have "label_range (label_count g) (label_count (fold visit_item items ?g1))
          (item_code it g @ concat (item_codes items ?g1))"
    unfolding label_range_def using ap t1 t2' le1 le2 by simp
  with inside sh rest show ?case by simp
qed

lemma items_temped:
  assumes "plain_names (concat (map item_names items))" and "str_inv g"
  shows "temped (temp_count g) (temp_count (fold visit_item items g)) (concat (item_codes items g))"
  using assms
proof (induction items arbitrary: g)
  case Nil
  show ?case by simp
next
  case (Cons it items)
  from Cons.prems have n1: "plain_names (item_names it)"
    and n2: "plain_names (concat (map item_names items))" by simp_all
  from item_temped[OF n1 Cons.prems(2)]
  have t1: "temped (temp_count g) (temp_count (visit_item it g)) (item_code it g)"
    and s1: "str_inv (visit_item it g)" by simp_all
  from temped_append[OF t1 Cons.IH[OF n2 s1]] show ?case by simp
qed

lemma count_list_distinct: "distinct xs \<Longrightarrow> x \<in> set xs \<Longrightarrow> count_list xs x = 1"
  by (induction xs) (auto simp: count_list_0_iff)

lemma count_list_filter: "P x \<Longrightarrow> count_list (filter P xs) x = count_list xs x"
  by (induction xs) auto

lemma str_inv_init [simp]: "str_inv init_irgen"
  by (simp add: str_inv_def init_irgen_def)

lemma init_counts [simp]: "temp_count init_irgen = 0" "label_count init_irgen = 0"
  "instructions init_irgen = []"
  by (simp_all add: init_irgen_def)

lemma distinct_temp_names: "distinct (map temp_name [lo..<hi])"
  by (simp add: distinct_map inj_on_def temp_name_inj)

text \<open>
  C4. In the IR of every program: the \<^verbatim>\<open>Label\<close> instructions carry distinct names, and every
  label named by a \<^verbatim>\<open>Goto\<close> or \<^verbatim>\<open>IfFalseGoto\<close> appears exactly once as a \<^verbatim>\<open>Label\<close>, in the code
  of the same top-level item as the jump. For a jump in a function body that is the same
  \<^verbatim>\<open>FuncBegin\<close>...\<^verbatim>\<open>FuncEnd\<close> pair (the item's code is one pair around code without markers);
  the jumps of a top-level statement lie outside every pair. When no variable of the
  program is spelled like a temporary (\<^verbatim>\<open>t\<close> and digits), the destinations spelled like
  temporaries are \<open>t0\<close>, ..., \<open>t(n-1)\<close> in this order, \<open>n\<close> the final counter: every temporary
  is the destination of exactly one instruction, and every instruction that reads a
  temporary comes after the one that defines it.
\<close>

theorem generate_ir_labels_temps:
  "let codes = item_codes items init_irgen;
       ir = fst (generate_ir (Program items));
       n = temp_count (visit_program (Program items) init_irgen)
   in ir = concat codes \<and>
      distinct (labels_of ir) \<and>
      (\<forall>l \<in> set (targets_of ir). count_list (labels_of ir) l = 1) \<and>
      list_all2 (\<lambda>it E. jumps_inside E \<and> item_shape it E) items codes \<and>
      (plain_names (program_names (Program items)) \<longrightarrow>
         filter is_temp (dests_of ir) = map temp_name [0..<n] \<and>
         (\<forall>k<n. count_list (dests_of ir) (temp_name k) = 1) \<and>
         uses_ok {} ir)"
proof -
  let ?codes = "item_codes items init_irgen"
  let ?ir = "concat ?codes"
  let ?n = "temp_count (fold visit_item items init_irgen)"
  have ir: "fst (generate_ir (Program items)) = ?ir"
    by (simp add: generate_ir_def Let_def items_instructions)
  from items_labelled[of init_irgen items]
  have rng: "label_range 0 (label_count (fold visit_item items init_irgen)) ?ir"
    and each: "list_all2 (\<lambda>it E. jumps_inside E \<and> item_shape it E) items ?codes"
    by simp_all
  from rng have dl: "distinct (labels_of ?ir)"
    and tl: "set (targets_of ?ir) \<subseteq> set (labels_of ?ir)"
    by (simp_all add: label_range_def)
  have once: "count_list (labels_of ?ir) l = 1" if "l \<in> set (targets_of ?ir)" for l
    using that tl by (intro count_list_distinct[OF dl]) auto
  have temps: "filter is_temp (dests_of ?ir) = map temp_name [0..<?n] \<and>
         (\<forall>k<?n. count_list (dests_of ?ir) (temp_name k) = 1) \<and> uses_ok {} ?ir"
    if pn: "plain_names (program_names (Program items))"
  proof -
    from pn have "plain_names (concat (map item_names items))" by simp
    from items_temped[OF this str_inv_init]
    have f: "filter is_temp (dests_of ?ir) = map temp_name [0..<?n]" and u: "uses_ok {} ?ir"
      by (simp_all add: temped_def)
    have "count_list (dests_of ?ir) (temp_name k) = 1" if "k < ?n" for k
    proof -
      have "count_list (dests_of ?ir) (temp_name k) =
            count_list (filter is_temp (dests_of ?ir)) (temp_name k)"
        by (simp add: count_list_filter)
      also have "\<dots> = 1"
        unfolding f using that by (intro count_list_distinct[OF distinct_temp_names]) simp
      finally show ?thesis .
    qed
    with f u show ?thesis by blast
  qed
  show ?thesis
    unfolding Let_def ir visit_program.simps
    using dl once each temps by blast
qed

definition sample_program :: "item list" where
  "sample_program =
     [TopStmt (Decl ''x'' (Some (Num (IntV 1)))),
      FuncDecl ''int'' ''f'' [(''int'', ''a'')]
        (Block [IfStmt (BinOp (Var ''a'') ''<'' (Num (IntV 2)))
                  (Block [Return (Some (BinOp (Var ''a'') ''+'' (Num (IntV 1))))]) None,
                Return (Some (Var ''a''))]),
      TopStmt (WhileStmt (BinOp (Var ''x'') ''<'' (Num (IntV 3)))
                 (Block [Assign ''x'' (BinOp (Var ''x'') ''+'' (Num (IntV 1)))]))]"

theorem generate_ir_labels_temps_witness:
  "plain_names (program_names (Program sample_program)) \<and>
   fst (generate_ir (Program sample_program)) =
     [IRAssign ''x'' ''1'',
      IRFuncBegin ''f'' [''a''],
      IRBinOp ''t0'' ''a'' ''<'' ''2'', IRIfFalseGoto ''t0'' ''L1'', IRLabel ''L0'',
      IRBinOp ''t1'' ''a'' ''+'' ''1'', IRReturn (Some ''t1''), IRLabel ''L1'',
      IRReturn (Some ''a''),
      IRFuncEnd ''f'',
      IRLabel ''L2'', IRBinOp ''t2'' ''x'' ''<'' ''3'', IRIfFalseGoto ''t2'' ''L4'', IRLabel ''L3'',
      IRBinOp ''t3'' ''x'' ''+'' ''1'', IRAssign ''x'' ''t3'', IRGoto ''L2'', IRLabel ''L4''] \<and>
   temp_count (visit_program (Program sample_program) init_irgen) = 4 \<and>
   uses_ok {} (fst (generate_ir (Program sample_program))) \<and>
   filter is_temp (dests_of (fst (generate_ir (Program sample_program)))) =
     map temp_name [0..<temp_count (visit_program (Program sample_program) init_irgen)]"
proof -
  have hyp: "plain_names (program_names (Program sample_program))" by code_simp
  have run: "fst (generate_ir (Program sample_program)) =
     [IRAssign ''x'' ''1'',
      IRFuncBegin ''f'' [''a''],
      IRBinOp ''t0'' ''a'' ''<'' ''2'', IRIfFalseGoto ''t0'' ''L1'', IRLabel ''L0'',
      IRBinOp ''t1'' ''a'' ''+'' ''1'', IRReturn (Some ''t1''), IRLabel ''L1'',
      IRReturn (Some ''a''),
      IRFuncEnd ''f'',
      IRLabel ''L2'', IRBinOp ''t2'' ''x'' ''<'' ''3'', IRIfFalseGoto ''t2'' ''L4'', IRLabel ''L3'',
      IRBinOp ''t3'' ''x'' ''+'' ''1'', IRAssign ''x'' ''t3'', IRGoto ''L2'', IRLabel ''L4'']"
    by code_simp
  have cnt: "temp_count (visit_program (Program sample_program) init_irgen) = 4" by code_simp
  note inst = generate_ir_labels_temps[of sample_program, unfolded Let_def]
  note temps = inst[THEN conjunct2, THEN conjunct2, THEN conjunct2, THEN conjunct2, THEN mp, OF hyp]
  show ?thesis
    by (intro conjI hyp run cnt temps[THEN conjunct2, THEN conjunct2] temps[THEN conjunct1])
qed

text \<open>
  The parser accepts statements outside functions and any identifier as a variable:
  \<^verbatim>\<open>int t0 = 1 + 2;\<close> yields two instructions with destination \<open>t0\<close>, and the jump of
  \<^verbatim>\<open>int x = 1; if (x < 2) { x = 3; }\<close> is in no \<^verbatim>\<open>FuncBegin\<close>...\<^verbatim>\<open>FuncEnd\<close> pair.
\<close>

theorem generate_ir_labels_temps_counterexample:
  "fst (generate_ir (Program
      [TopStmt (Decl ''t0'' (Some (BinOp (Num (IntV 1)) ''+'' (Num (IntV 2)))))])) =
     [IRBinOp ''t0'' ''1'' ''+'' ''2'', IRAssign ''t0'' ''t0''] \<and>
   count_list (dests_of (fst (generate_ir (Program
      [TopStmt (Decl ''t0'' (Some (BinOp (Num (IntV 1)) ''+'' (Num (IntV 2)))))])))) ''t0'' = 2 \<and>
   fst (generate_ir (Program
      [TopStmt (Decl ''x'' (Some (Num (IntV 1)))),
       TopStmt (IfStmt (BinOp (Var ''x'') ''<'' (Num (IntV 2)))
                  (Block [Assign ''x'' (Num (IntV 3))]) None)])) =
     [IRAssign ''x'' ''1'', IRBinOp ''t0'' ''x'' ''<'' ''2'', IRIfFalseGoto ''t0'' ''L1'',
      IRLabel ''L0'', IRAssign ''x'' ''3'', IRLabel ''L1'']"
  by (intro conjI; code_simp)

section \<open>The assembly generator (asm_generator.py)\<close>

text \<open>
  \<^verbatim>\<open>str.isdigit\<close> and \<^verbatim>\<open>str.startswith\<close>, on ASCII text: a non-empty string of decimal
  digits, and a string that begins with the given prefix. Outside ASCII \<^verbatim>\<open>str.isdigit\<close>
  accepts further characters (superscript two, U+00B2, is one); the statements about the
  generator are therefore made for operands of ASCII characters.
\<close>

definition isdigit :: "string \<Rightarrow> bool" where
  "isdigit s = (s \<noteq> [] \<and> list_all (\<lambda>c. c \<in> set ''0123456789'') s)"

definition startswith :: "string \<Rightarrow> string \<Rightarrow> bool" where
  "startswith s p = (take (length p) s = p)"

record asmgen =
  asm_output :: "string list"
  var_offset :: "string \<rightharpoonup> nat"
  current_offset :: nat
  in_function :: bool
  function_name :: string


definition asm_emit :: "string \<Rightarrow> asmgen \<Rightarrow> asmgen" where
  "asm_emit line a = a\<lparr>asm_output := asm_output a @ [line]\<rparr>"

definition slot_text :: "nat \<Rightarrow> string" where
  "slot_text off = ''QWORD [rbp-'' @ str_nat off @ '']''"

definition get_var_location :: "string \<Rightarrow> asmgen \<Rightarrow> string \<times> asmgen" where
  "get_var_location var a =
     (if isdigit var \<or> (startswith var ''-'' \<and> isdigit (drop 1 var)) then (var, a)
      else (case var_offset a var of
              Some off \<Rightarrow> (slot_text off, a)
            | None \<Rightarrow>
                (let off = current_offset a + 8
                 in (slot_text off, a\<lparr>current_offset := off, var_offset := (var_offset a)(var \<mapsto> off)\<rparr>))))"



definition is_int_literal :: "string \<Rightarrow> bool" where
  "is_int_literal s = (isdigit s \<or> (startswith s ''-'' \<and> isdigit (drop 1 s)))"

text \<open>Where an operand lives, read off a state: a literal is itself, a name its stack slot.\<close>

definition location :: "asmgen \<Rightarrow> string \<Rightarrow> string" where
  "location a v =
     (if is_int_literal v then v
      else (case var_offset a v of Some off \<Rightarrow> slot_text off | None \<Rightarrow> []))"


lemma asm_emit_simps [simp]:
  "asm_output (asm_emit l a) = asm_output a @ [l]"
  "var_offset (asm_emit l a) = var_offset a"
  "current_offset (asm_emit l a) = current_offset a"
  by (simp_all add: asm_emit_def)





lemma slot_text_nonempty [simp]: "slot_text off \<noteq> []"
  by (simp add: slot_text_def)

lemma location_after_get: "v \<noteq> [] \<Longrightarrow> location (snd (get_var_location v a)) v \<noteq> []"
  by (auto simp: get_var_location_def location_def is_int_literal_def Let_def split: option.splits)











subsection \<open>The stack frame after a call\<close>


definition same_frame :: "asmgen \<Rightarrow> asmgen \<Rightarrow> bool" where
  "same_frame a b = (var_offset a = var_offset b \<and> current_offset a = current_offset b)"



lemma same_frame_refl [simp]: "same_frame a a"
  by (simp add: same_frame_def)

lemma same_frame_sym: "same_frame a b \<Longrightarrow> same_frame b a"
  by (simp add: same_frame_def)


lemma same_frame_emit [simp]: "same_frame (asm_emit l a) b = same_frame a b"
  "same_frame a (asm_emit l b) = same_frame a b"
  by (simp_all add: same_frame_def)










lemma asm_emit_rest [simp]:
  "in_function (asm_emit l a) = in_function a"
  "function_name (asm_emit l a) = function_name a"
  by (simp_all add: asm_emit_def)

lemma get_var_location_rest [simp]:
  "in_function (snd (get_var_location v a)) = in_function a"
  "function_name (snd (get_var_location v a)) = function_name a"
  by (simp_all add: get_var_location_def Let_def split: option.splits)







section \<open>Tokens and the parser's state (adapter_lexer.py, parser.py)\<close>

text \<open>
  A token's \<^verbatim>\<open>type\<close> is a Python string (\<^verbatim>\<open>'INT'\<close>, \<^verbatim>\<open>'ID'\<close>, ...), kept as a string; its
  \<^verbatim>\<open>literal\<close> is \<^verbatim>\<open>None\<close>, a number or the text of a string literal.
\<close>

datatype lit_value = NoLit | NumLit numval | StrLit string

record token =
  ttype :: string
  lexeme :: string
  literal :: lit_value
  pos :: "nat \<times> nat"

text \<open>
  The two exception classes of parser.py, \<^verbatim>\<open>SyntaxError_\<close> and \<^verbatim>\<open>SemanticError\<close>. The
  messages are f-strings; each raise site is a constructor here, with the values its
  message prints.
\<close>

datatype syntax_error =
    Expected string string string
  | ExpectedReturnType
  | ExpectedParamType
  | MissingRBrace
  | UnknownStatement string string
  | ExpectedKeyword string
  | BadForInit
  | MalformedNumber
  | BadFactor

datatype semantic_error =
    UndeclaredUse string
  | UnaryExpectsNumber string string
  | PlusIncompatible string string
  | ArithExpectsNumbers string string string
  | ComparisonIncompatible string string string
  | LogicalExpectsBool string string string
  | CannotInferType string
  | ReturnWithoutValue string
  | ReturnTypeMismatch string string
  | BadCondition string string
  | AlreadyDeclared string
  | InitTypeMismatch string string
  | UndeclaredVariable string
  | AssignTypeMismatch string string string
  | UndeclaredFunction string
  | PrintfNeedsArgument
  | PrintfUndeclared string
  | PrintfArgNotVariable nat
  | ScanfNeedsArgument
  | ScanfArgNotVariable nat
  | ScanfUndeclared string
  | WrongArity string nat nat
  | ArgTypeMismatch string nat string string string

datatype error = SyntaxError syntax_error | SemanticError semantic_error

type_synonym func_sig = "string \<times> (string \<times> string) list \<times> bool"

record parser =
  tokens :: "token list"
  tok_i :: nat
  current :: token
  symbols :: "string \<rightharpoonup> string"
  function_table :: "string \<rightharpoonup> func_sig"
  current_function_return_type :: "string option"

definition numeric :: "string \<Rightarrow> bool" where
  "numeric t = (t = ''int'' \<or> t = ''float'')"

text \<open>The operator cases of \<^verbatim>\<open>typeof\<close> on a \<^verbatim>\<open>BinOp\<close>, once both operands are typed.\<close>

definition typeof_binop :: "string \<Rightarrow> string \<Rightarrow> string \<Rightarrow> error + string" where
  "typeof_binop op tleft tright =
     (if op = ''+'' then
        (if tleft = ''string'' \<and> tright = ''string'' then Inr ''string''
         else if numeric tleft \<and> numeric tright then
           Inr (if tleft = ''float'' \<or> tright = ''float'' then ''float'' else ''int'')
         else Inl (SemanticError (PlusIncompatible tleft tright)))
      else if op \<in> set [''-'', ''*'', ''/'', ''%''] then
        (if numeric tleft \<and> numeric tright then
           Inr (if tleft = ''float'' \<or> tright = ''float'' then ''float'' else ''int'')
         else Inl (SemanticError (ArithExpectsNumbers op tleft tright)))
      else if op \<in> set [''=='', ''!='', ''<'', ''>'', ''<='', ''>=''] then
        (if (numeric tleft \<and> numeric tright) \<or> (tleft = tright \<and> tright = ''string'')
         then Inr ''bool''
         else Inl (SemanticError (ComparisonIncompatible op tleft tright)))
      else if op \<in> set [''&&'', ''||''] then
        (if tleft = tright \<and> tright = ''bool'' then Inr ''bool''
         else Inl (SemanticError (LogicalExpectsBool op tleft tright)))
      else Inl (SemanticError (CannotInferType ''BinOp'')))"

fun typeof :: "parser \<Rightarrow> expr \<Rightarrow> error + string" where
  "typeof p (Num v) = Inr (case v of FloatV s \<Rightarrow> ''float'' | IntV n \<Rightarrow> ''int'')"
| "typeof p (String s) = Inr ''string''"
| "typeof p (Var name) =
     (case symbols p name of
        None \<Rightarrow> Inl (SemanticError (UndeclaredUse name))
      | Some t \<Rightarrow> Inr t)"
| "typeof p (FuncCall name args) =
     (case function_table p name of
        Some sig \<Rightarrow> Inr (fst sig)
      | None \<Rightarrow> Inr ''void'')"
| "typeof p (UnaryOp op e) =
     (case typeof p e of
        Inl err \<Rightarrow> Inl err
      | Inr t \<Rightarrow> if \<not> numeric t then Inl (SemanticError (UnaryExpectsNumber op t)) else Inr t)"
| "typeof p (BinOp l op r) =
     (case typeof p l of
        Inl err \<Rightarrow> Inl err
      | Inr tleft \<Rightarrow>
         (case typeof p r of
            Inl err \<Rightarrow> Inl err
          | Inr tright \<Rightarrow> typeof_binop op tleft tright))"

definition comparison_ops :: "string list" where
  "comparison_ops = [''=='', ''!='', ''<'', ''>'', ''<='', ''>='']"

definition logical_ops :: "string list" where
  "logical_ops = [''&&'', ''||'']"

lemma typeof_binop_result:
  "(\<exists>s. typeof_binop op a b = Inl (SemanticError s)) \<or> (\<exists>t. typeof_binop op a b = Inr t)"
  by (simp add: typeof_binop_def)

lemma typeof_binop_semantic: "typeof_binop op a b = Inl err \<Longrightarrow> \<exists>s. err = SemanticError s"
  using typeof_binop_result[of op a b] by auto

lemma typeof_semantic: "typeof p e = Inl err \<Longrightarrow> \<exists>s. err = SemanticError s"
proof (induction p e arbitrary: err rule: typeof.induct)
  case (5 p op e)
  then show ?case by (cases "typeof p e") (auto split: if_splits)
next
  case (6 p l op r)
  show ?case
  proof (cases "typeof p l")
    case (Inl a)
    with 6 show ?thesis by simp
  next
    case l: (Inr tleft)
    show ?thesis
    proof (cases "typeof p r")
      case (Inl a)
      with 6 l show ?thesis by simp
    next
      case (Inr tright)
      with 6(3) l show ?thesis by (simp add: typeof_binop_semantic)
    qed
  qed
qed (auto split: option.splits)

lemma string_pair_eq: "(a = b \<and> b = s) = (a = s \<and> b = s)"
  by auto

lemma typeof_binop_comparison:
  assumes "op \<in> set comparison_ops"
  shows "typeof_binop op a b =
     (if (numeric a \<and> numeric b) \<or> (a = ''string'' \<and> b = ''string'') then Inr ''bool''
      else Inl (SemanticError (ComparisonIncompatible op a b)))"
proof -
  from assms consider "op = ''==''" | "op = ''!=''" | "op = ''<''" | "op = ''>''"
    | "op = ''<=''" | "op = ''>=''"
    by (auto simp: comparison_ops_def)
  then show ?thesis
    by cases (simp_all only: typeof_binop_def string_pair_eq, simp_all)
qed

lemma typeof_binop_logical:
  assumes "op \<in> set logical_ops"
  shows "typeof_binop op a b =
     (if a = ''bool'' \<and> b = ''bool'' then Inr ''bool''
      else Inl (SemanticError (LogicalExpectsBool op a b)))"
proof -
  from assms consider "op = ''&&''" | "op = ''||''"
    by (auto simp: logical_ops_def)
  then show ?thesis
    by cases (simp_all only: typeof_binop_def string_pair_eq, simp_all)
qed

lemma typeof_binop_not_bool:
  assumes "op \<notin> set comparison_ops" "op \<notin> set logical_ops"
  shows "typeof_binop op a b \<noteq> Inr ''bool''"
  using assms by (simp add: typeof_binop_def comparison_ops_def logical_ops_def)


text \<open>
  C3, as amended. When both operands are typed, a comparison (\<^verbatim>\<open>== != < > <= >=\<close>) has
  type bool exactly when both operand types are numeric or both are string, and a logical
  operation (\<^verbatim>\<open>&& ||\<close>) exactly when both are bool; in every other case, also when an
  operand fails to type, the result is a semantic error. The expressions of type bool are
  the comparisons, the logical operations, the variables declared with type bool and the
  calls of a function whose declared return type is bool.
\<close>

theorem typeof_bool:
  "(op \<in> set comparison_ops \<longrightarrow>
      (typeof p (BinOp l op r) = Inr ''bool'' \<longleftrightarrow>
         (\<exists>tleft tright. typeof p l = Inr tleft \<and> typeof p r = Inr tright \<and>
            ((numeric tleft \<and> numeric tright) \<or> (tleft = ''string'' \<and> tright = ''string'')))) \<and>
      (typeof p (BinOp l op r) = Inr ''bool'' \<or>
         (\<exists>s. typeof p (BinOp l op r) = Inl (SemanticError s)))) \<and>
   (op \<in> set logical_ops \<longrightarrow>
      (typeof p (BinOp l op r) = Inr ''bool'' \<longleftrightarrow>
         typeof p l = Inr ''bool'' \<and> typeof p r = Inr ''bool'') \<and>
      (typeof p (BinOp l op r) = Inr ''bool'' \<or>
         (\<exists>s. typeof p (BinOp l op r) = Inl (SemanticError s)))) \<and>
   (typeof p e = Inr ''bool'' \<longrightarrow>
      (\<exists>l op r. e = BinOp l op r \<and> (op \<in> set comparison_ops \<or> op \<in> set logical_ops)) \<or>
      (\<exists>name. e = Var name \<and> symbols p name = Some ''bool'') \<or>
      (\<exists>name args sig. e = FuncCall name args \<and> function_table p name = Some sig \<and>
          fst sig = ''bool''))"
proof (intro conjI impI)
  assume c: "op \<in> set comparison_ops"
  show "typeof p (BinOp l op r) = Inr ''bool'' \<longleftrightarrow>
         (\<exists>tleft tright. typeof p l = Inr tleft \<and> typeof p r = Inr tright \<and>
            ((numeric tleft \<and> numeric tright) \<or> (tleft = ''string'' \<and> tright = ''string'')))"
    by (cases "typeof p l"; cases "typeof p r") (simp_all add: typeof_binop_comparison[OF c])
  show "typeof p (BinOp l op r) = Inr ''bool'' \<or>
         (\<exists>s. typeof p (BinOp l op r) = Inl (SemanticError s))"
    using typeof_semantic[of p l] typeof_semantic[of p r]
    by (cases "typeof p l"; cases "typeof p r") (auto simp: typeof_binop_comparison[OF c])
next
  assume c: "op \<in> set logical_ops"
  show "typeof p (BinOp l op r) = Inr ''bool'' \<longleftrightarrow>
         typeof p l = Inr ''bool'' \<and> typeof p r = Inr ''bool''"
    by (cases "typeof p l"; cases "typeof p r") (simp_all add: typeof_binop_logical[OF c])
  show "typeof p (BinOp l op r) = Inr ''bool'' \<or>
         (\<exists>s. typeof p (BinOp l op r) = Inl (SemanticError s))"
    using typeof_semantic[of p l] typeof_semantic[of p r]
    by (cases "typeof p l"; cases "typeof p r") (auto simp: typeof_binop_logical[OF c])
next
  assume b: "typeof p e = Inr ''bool''"
  show "(\<exists>l op r. e = BinOp l op r \<and> (op \<in> set comparison_ops \<or> op \<in> set logical_ops)) \<or>
      (\<exists>name. e = Var name \<and> symbols p name = Some ''bool'') \<or>
      (\<exists>name args sig. e = FuncCall name args \<and> function_table p name = Some sig \<and>
          fst sig = ''bool'')"
  proof (cases e)
    case (Num v)
    with b show ?thesis by (cases v) simp_all
  next
    case (String s)
    with b show ?thesis by simp
  next
    case (Var name)
    with b show ?thesis by (simp split: option.splits)
  next
    case (UnaryOp uop x)
    with b show ?thesis
      by (cases "typeof p x") (auto simp: numeric_def split: if_splits)
  next
    case (BinOp x bop y)
    have "bop \<in> set comparison_ops \<or> bop \<in> set logical_ops"
    proof (rule ccontr)
      assume "\<not> ?thesis"
      then have "typeof_binop bop a c \<noteq> Inr ''bool''" for a c
        by (simp add: typeof_binop_not_bool)
      with b BinOp show False
        by (cases "typeof p x"; cases "typeof p y") simp_all
    qed
    with BinOp show ?thesis by simp
  next
    case (FuncCall name args)
    with b show ?thesis by (auto split: option.splits)
  qed
qed

definition bool_env :: parser where
  "bool_env = \<lparr>tokens = [], tok_i = 0,
     current = \<lparr>ttype = ''EOF'', lexeme = [], literal = NoLit, pos = (1, 1)\<rparr>,
     symbols = [''b'' \<mapsto> ''bool'', ''n'' \<mapsto> ''int''], function_table = Map.empty,
     current_function_return_type = None\<rparr>"

theorem typeof_bool_witness:
  "''<'' \<in> set comparison_ops \<and>
   typeof bool_env (BinOp (Var ''n'') ''<'' (Num (IntV 2))) = Inr ''bool'' \<and>
   ''&&'' \<in> set logical_ops \<and>
   (\<exists>s. typeof bool_env (BinOp (Var ''n'') ''&&'' (Var ''b'')) = Inl (SemanticError s))"
proof -
  have c: "''<'' \<in> set comparison_ops" by (simp add: comparison_ops_def)
  have g: "''&&'' \<in> set logical_ops" by (simp add: logical_ops_def)
  have ops: "\<exists>tleft tright. typeof bool_env (Var ''n'') = Inr tleft \<and>
      typeof bool_env (Num (IntV 2)) = Inr tright \<and>
      ((numeric tleft \<and> numeric tright) \<or> (tleft = ''string'' \<and> tright = ''string''))"
    by (simp add: bool_env_def numeric_def)
  note t1 = typeof_bool[of "''<''" bool_env "Var ''n''" "Num (IntV 2)", THEN conjunct1, rule_format, OF c]
  from t1[THEN conjunct1] ops
  have r1: "typeof bool_env (BinOp (Var ''n'') ''<'' (Num (IntV 2))) = Inr ''bool''" by (rule iffD2)
  note t2 = typeof_bool[of "''&&''" bool_env "Var ''n''" "Var ''b''", THEN conjunct2, THEN conjunct1,
      rule_format, OF g]
  have nb: "\<not> (typeof bool_env (Var ''n'') = Inr ''bool'' \<and> typeof bool_env (Var ''b'') = Inr ''bool'')"
    by (simp add: bool_env_def)
  with t2[THEN conjunct1] have "typeof bool_env (BinOp (Var ''n'') ''&&'' (Var ''b'')) \<noteq> Inr ''bool''"
    by blast
  with t2[THEN conjunct2]
  have r2: "\<exists>s. typeof bool_env (BinOp (Var ''n'') ''&&'' (Var ''b'')) = Inl (SemanticError s)"
    by blast
  from c r1 g r2 show ?thesis by (intro conjI)
qed

text \<open>
  The claim as stated (only comparisons and logical operations have type bool) fails on a
  variable declared bool, as \<^verbatim>\<open>bool b;\<close> declares it.
\<close>

theorem typeof_bool_counterexample:
  "\<not> (\<forall>p e. typeof p e = Inr ''bool'' \<longrightarrow>
        (\<exists>l op r. e = BinOp l op r \<and> (op \<in> set comparison_ops \<or> op \<in> set logical_ops)))"
proof
  assume "\<forall>p e. typeof p e = Inr ''bool'' \<longrightarrow>
        (\<exists>l op r. e = BinOp l op r \<and> (op \<in> set comparison_ops \<or> op \<in> set logical_ops))"
  moreover have "typeof bool_env (Var ''b'') = Inr ''bool''"
    by (simp add: bool_env_def)
  ultimately have "\<exists>l op r. Var ''b'' = BinOp l op r \<and> (op \<in> set comparison_ops \<or> op \<in> set logical_ops)"
    by blast
  then show False by simp
qed

section \<open>The lexer (user_lexer.py)\<close>

text \<open>
  Source text is read as ASCII. \<^verbatim>\<open>\w\<close> is a letter, a digit or the underscore, \<^verbatim>\<open>\d\<close> a
  decimal digit.
\<close>

definition newline :: char where "newline = CHR 0x0A"
definition backslash :: char where "backslash = CHR 0x5C"
definition squote :: char where "squote = CHR 0x27"
definition dquote :: char where "dquote = CHR 0x22"

definition is_letter_us :: "char \<Rightarrow> bool" where
  "is_letter_us c = (c \<in> set ''ABCDEFGHIJKLMNOPQRSTUVWXYZabcdefghijklmnopqrstuvwxyz_'')"

definition is_decimal :: "char \<Rightarrow> bool" where
  "is_decimal c = (c \<in> set ''0123456789'')"

definition is_word :: "char \<Rightarrow> bool" where
  "is_word c = (is_letter_us c \<or> is_decimal c)"

definition is_hspace :: "char \<Rightarrow> bool" where
  "is_hspace c = (c = CHR '' '' \<or> c = CHR 0x09 \<or> c = CHR 0x0D)"

subsection \<open>The six token patterns, matched at the head of the remaining input\<close>

definition keyword_list :: "string list" where
  "keyword_list = [''int'', ''bool'', ''float'', ''string'', ''void'', ''for'', ''while'',
                   ''if'', ''else'', ''return'']"

text \<open>
  \<^verbatim>\<open>\b(?:int|...|return)\b\<close>: every keyword starts with a word character, so the first
  \<^verbatim>\<open>\b\<close> asks that the character before the match (\<open>prev\<close>) is not one; the second that
  the character after the keyword is not one.
\<close>

definition match_keywords :: "char option \<Rightarrow> string \<Rightarrow> string option" where
  "match_keywords prev rest =
     (if (case prev of Some c \<Rightarrow> is_word c | None \<Rightarrow> False) then None
      else find (\<lambda>kw. startswith rest kw \<and>
                     (case drop (length kw) rest of c # _ \<Rightarrow> \<not> is_word c | [] \<Rightarrow> True))
             keyword_list)"

definition match_identifier :: "string \<Rightarrow> string option" where
  "match_identifier rest =
     (case rest of
        c # cs \<Rightarrow> if is_letter_us c then Some (c # takeWhile is_word cs) else None
      | [] \<Rightarrow> None)"

definition match_punctuacion :: "string \<Rightarrow> string option" where
  "match_punctuacion rest =
     (case rest of c # _ \<Rightarrow> if c \<in> set '',;(){}'' then Some [c] else None | [] \<Rightarrow> None)"

definition operator_list :: "string list" where
  "operator_list = [''=='', ''!='', ''<='', ''>='', ''++'', ''--'', ''+='', ''-='', ''*='',
                    ''/='', ''%='', ''&&'', ''||'']"

definition match_operator :: "string \<Rightarrow> string option" where
  "match_operator rest =
     (case find (startswith rest) operator_list of
        Some op \<Rightarrow> Some op
      | None \<Rightarrow>
          (case rest of
             c # _ \<Rightarrow> if c \<in> set ''+-*/%<>=!&|'' then Some [c] else None
           | [] \<Rightarrow> None))"

definition match_constant :: "string \<Rightarrow> string option" where
  "match_constant rest =
     (let ds = takeWhile is_decimal rest
      in if ds = [] then None
         else (case drop (length ds) rest of
                 c # after \<Rightarrow>
                   (let fs = takeWhile is_decimal after
                    in if c = CHR ''.'' \<and> fs \<noteq> [] then Some (ds @ c # fs) else Some ds)
               | [] \<Rightarrow> Some ds))"

text \<open>
  The body of a string literal up to and with its closing quote: a character other than the
  quote and the backslash, or a backslash and any character but a newline.
\<close>

fun scan_string :: "char \<Rightarrow> string \<Rightarrow> string option" where
  "scan_string q [] = None"
| "scan_string q (c # cs) =
     (if c = q then Some [c]
      else if c = backslash then
        (case cs of
           d # ds \<Rightarrow> if d = newline then None else map_option (\<lambda>r. c # d # r) (scan_string q ds)
         | [] \<Rightarrow> None)
      else map_option (\<lambda>r. c # r) (scan_string q cs))"

definition match_literal :: "string \<Rightarrow> string option" where
  "match_literal rest =
     (case rest of
        q # cs \<Rightarrow>
          if q = dquote \<or> q = squote then map_option (\<lambda>r. q # r) (scan_string q cs) else None
      | [] \<Rightarrow> None)"

text \<open>The loop over \<^verbatim>\<open>compiled\<close>: the first pattern that matches, in the list's order.\<close>

definition match_token :: "char option \<Rightarrow> string \<Rightarrow> (string \<times> string) option" where
  "match_token prev rest =
     (case match_keywords prev rest of Some l \<Rightarrow> Some (''keywords'', l) | None \<Rightarrow>
      case match_identifier rest of Some l \<Rightarrow> Some (''identifier'', l) | None \<Rightarrow>
      case match_punctuacion rest of Some l \<Rightarrow> Some (''punctuacion'', l) | None \<Rightarrow>
      case match_operator rest of Some l \<Rightarrow> Some (''operator'', l) | None \<Rightarrow>
      case match_constant rest of Some l \<Rightarrow> Some (''constant'', l) | None \<Rightarrow>
      case match_literal rest of Some l \<Rightarrow> Some (''literal'', l) | None \<Rightarrow> None)"

subsection \<open>Position tracking and the main loop\<close>

record lex_state =
  lpos :: nat
  line :: nat
  col :: nat

datatype lex_error =
    UnterminatedComment nat nat
  | UnexpectedChar char nat nat string

type_synonym raw_token = "string \<times> string \<times> nat \<times> nat"

definition advance :: "char \<Rightarrow> lex_state \<Rightarrow> lex_state" where
  "advance ch s =
     (if ch = newline then s\<lparr>lpos := lpos s + 1, line := line s + 1, col := 1\<rparr>
      else s\<lparr>lpos := lpos s + 1, col := col s + 1\<rparr>)"

definition advance_n :: "string \<Rightarrow> lex_state \<Rightarrow> lex_state" where
  "advance_n text s = fold advance text s"

text \<open>\<^verbatim>\<open>while pos < n and code[pos] != '\n': _advance(code[pos])\<close>, over the remaining input.\<close>

fun skip_line :: "string \<Rightarrow> lex_state \<Rightarrow> lex_state" where
  "skip_line [] s = s"
| "skip_line (c # cs) s = (if c = newline then s else skip_line cs (advance c s))"

text \<open>The scan for \<^verbatim>\<open>*/\<close>; the flag is \<^verbatim>\<open>cerrado\<close>.\<close>

fun scan_comment :: "string \<Rightarrow> lex_state \<Rightarrow> lex_state \<times> bool" where
  "scan_comment [] s = (s, False)"
| "scan_comment (c # cs) s =
     (if startswith (c # cs) ''*/'' then (advance CHR ''/'' (advance CHR ''*'' s), True)
      else scan_comment cs (advance c s))"

definition snippet :: "string \<Rightarrow> string" where
  "snippet rest = concat (map (\<lambda>c. if c = newline then [backslash, CHR ''n''] else [c]) (take 20 rest))"

text \<open>One turn of the \<^verbatim>\<open>while pos < n\<close> loop, with \<open>pos < n\<close>: the new state and the token appended, if any.\<close>

definition lex_step :: "string \<Rightarrow> lex_state \<Rightarrow> lex_error + (lex_state \<times> raw_token option)" where
  "lex_step code s =
     (let rest = drop (lpos s) code;
          prev = (if lpos s = 0 then None else Some (code ! (lpos s - 1)))
      in if startswith rest ''//'' then Inr (skip_line rest s, None)
         else if startswith rest ''/*'' then
           (let (s', cerrado) = scan_comment (drop 2 rest) (advance CHR ''*'' (advance CHR ''/'' s))
            in if cerrado then Inr (s', None) else Inl (UnterminatedComment (line s') (col s')))
         else if take 1 rest = [newline] then Inr (advance newline s, None)
         else if takeWhile is_hspace rest \<noteq> [] then Inr (advance_n (takeWhile is_hspace rest) s, None)
         else
           (case match_token prev rest of
              Some (typ, lx) \<Rightarrow> Inr (advance_n lx s, Some (typ, lx, line s, col s))
            | None \<Rightarrow> Inl (UnexpectedChar (code ! lpos s) (line s) (col s) (snippet rest))))"

lemma advance_lpos [simp]: "lpos (advance c s) = Suc (lpos s)"
  by (simp add: advance_def)

lemma advance_n_lpos [simp]: "lpos (advance_n t s) = lpos s + length t"
  unfolding advance_n_def by (induction t arbitrary: s) simp_all

lemma skip_line_lpos: "lpos s \<le> lpos (skip_line r s)"
proof (induction r arbitrary: s)
  case Nil
  show ?case by simp
next
  case (Cons c cs)
  from Cons[of "advance c s"] show ?case by simp
qed

lemma skip_line_progress: "startswith r ''//'' \<Longrightarrow> lpos s < lpos (skip_line r s)"
proof (cases r)
  case Nil
  assume "startswith r ''//''"
  with Nil show ?thesis by (simp add: startswith_def)
next
  case (Cons c cs)
  assume "startswith r ''//''"
  with Cons have "c \<noteq> newline" by (auto simp: startswith_def newline_def)
  with Cons skip_line_lpos[of "advance c s" cs] show ?thesis by simp
qed

lemma scan_comment_lpos: "lpos s \<le> lpos (fst (scan_comment r s))"
proof (induction r arbitrary: s)
  case Nil
  show ?case by simp
next
  case (Cons c cs)
  from Cons[of "advance c s"] show ?case by simp
qed

lemma find_Some_nonempty: "find P xs = Some x \<Longrightarrow> x \<in> set xs"
  by (induction xs) (auto split: if_splits)

lemma match_token_nonempty: "match_token prev rest = Some (typ, lx) \<Longrightarrow> lx \<noteq> []"
proof -
  assume m: "match_token prev rest = Some (typ, lx)"
  have k: "match_keywords prev rest = Some l \<Longrightarrow> l \<noteq> []" for l
    by (auto simp: match_keywords_def keyword_list_def dest!: find_Some_nonempty split: if_splits)
  have i: "match_identifier rest = Some l \<Longrightarrow> l \<noteq> []" for l
    by (auto simp: match_identifier_def split: list.splits if_splits)
  have p: "match_punctuacion rest = Some l \<Longrightarrow> l \<noteq> []" for l
    by (auto simp: match_punctuacion_def split: list.splits if_splits)
  have ol: "x \<in> set operator_list \<Longrightarrow> x \<noteq> []" for x
    by (auto simp: operator_list_def)
  have o: "match_operator rest = Some l \<Longrightarrow> l \<noteq> []" for l
    by (auto simp: match_operator_def dest!: find_Some_nonempty ol split: option.splits list.splits if_splits)
  have c: "match_constant rest = Some l \<Longrightarrow> l \<noteq> []" for l
    by (auto simp: match_constant_def Let_def split: list.splits if_splits)
  have s: "match_literal rest = Some l \<Longrightarrow> l \<noteq> []" for l
    by (auto simp: match_literal_def split: list.splits if_splits)
  from m k i p o c s show ?thesis
    by (auto simp: match_token_def split: option.splits)
qed

lemma lex_step_progress:
  "lex_step code s = Inr (s', tok) \<Longrightarrow> lpos s < lpos s'"
  using skip_line_progress[of "drop (lpos s) code" s]
    scan_comment_lpos[of "advance CHR ''*'' (advance CHR ''/'' s)" "drop 2 (drop (lpos s) code)"]
  by (auto simp: lex_step_def Let_def split_beta dest: match_token_nonempty
      split: if_splits option.splits)

function lexer_loop :: "string \<Rightarrow> lex_state \<Rightarrow> raw_token list \<Rightarrow> lex_error + raw_token list" where
  "lexer_loop code s result =
     (if lpos s < length code then
        (case lex_step code s of
           Inl err \<Rightarrow> Inl err
         | Inr (s', tok) \<Rightarrow>
             lexer_loop code s' (case tok of Some t \<Rightarrow> result @ [t] | None \<Rightarrow> result))
      else Inr result)"
  by pat_completeness auto
termination
proof (relation "measure (\<lambda>(code, s, result). length code - lpos s)")
  show "wf (measure (\<lambda>(code, s, result). length code - lpos s))" by simp
next
  fix code s result x2 x y
  assume "lpos s < length code" "lex_step code s = Inr x2" "(x, y) = x2"
  then have "lpos s < lpos x" using lex_step_progress[of code s x y] by simp
  with \<open>lpos s < length code\<close>
  show "((code, x, case y of None \<Rightarrow> result | Some t \<Rightarrow> result @ [t]), code, s, result)
        \<in> measure (\<lambda>(code, s, result). length code - lpos s)"
    by simp
qed

declare lexer_loop.simps [simp del]

definition lexer :: "string \<Rightarrow> lex_error + raw_token list" where
  "lexer code = lexer_loop code \<lparr>lpos = 0, line = 1, col = 1\<rparr> []"

subsection \<open>What the loop keeps: the state is the text read so far\<close>

definition lex_init :: lex_state where
  "lex_init = \<lparr>lpos = 0, line = 1, col = 1\<rparr>"

text \<open>The state at offset \<open>k\<close> of the text: its line and column are the position of the character there.\<close>

definition state_at :: "string \<Rightarrow> nat \<Rightarrow> lex_state" where
  "state_at code k = advance_n (take k code) lex_init"

fun has_close :: "string \<Rightarrow> bool" where
  "has_close [] = False"
| "has_close (c # cs) = (startswith (c # cs) ''*/'' \<or> has_close cs)"

lemma advance_n_Nil [simp]: "advance_n [] s = s"
  by (simp add: advance_n_def)

lemma advance_n_Cons [simp]: "advance_n (c # cs) s = advance_n cs (advance c s)"
  by (simp add: advance_n_def)

lemma advance_n_append: "advance_n (a @ b) s = advance_n b (advance_n a s)"
  by (simp add: advance_n_def)

lemma advance_n_take_add:
  "advance_n (take k (drop j r)) (advance_n (take j r) s) = advance_n (take (j + k) r) s"
  by (simp add: advance_n_append[symmetric] take_add)

lemma skip_line_take: "\<exists>k\<le>length r. skip_line r s = advance_n (take k r) s"
proof (induction r arbitrary: s)
  case Nil
  show ?case by simp
next
  case (Cons c cs)
  show ?case
  proof (cases "c = newline")
    case True
    then have "skip_line (c # cs) s = advance_n (take 0 (c # cs)) s" by simp
    then show ?thesis by blast
  next
    case False
    from Cons[of "advance c s"] obtain k where "k \<le> length cs"
      "skip_line cs (advance c s) = advance_n (take k cs) (advance c s)" by blast
    with False have "Suc k \<le> length (c # cs)"
      "skip_line (c # cs) s = advance_n (take (Suc k) (c # cs)) s" by simp_all
    then show ?thesis by blast
  qed
qed

lemma startswith_two: "startswith r [a, b] \<Longrightarrow> \<exists>t. r = a # b # t"
  by (cases r; cases "tl r") (auto simp: startswith_def)

lemma scan_comment_take: "\<exists>k\<le>length r. fst (scan_comment r s) = advance_n (take k r) s"
proof (induction r arbitrary: s)
  case Nil
  show ?case by simp
next
  case (Cons c cs)
  show ?case
  proof (cases "startswith (c # cs) ''*/''")
    case True
    then obtain t where t: "c # cs = CHR ''*'' # CHR ''/'' # t" using startswith_two by blast
    with True have "fst (scan_comment (c # cs) s) = advance_n (take 2 (c # cs)) s"
      by (simp add: numeral_2_eq_2)
    moreover from t have "2 \<le> length (c # cs)" by simp
    ultimately show ?thesis by blast
  next
    case False
    from Cons[of "advance c s"] obtain k where "k \<le> length cs"
      "fst (scan_comment cs (advance c s)) = advance_n (take k cs) (advance c s)" by blast
    with False have "Suc k \<le> length (c # cs)"
      "fst (scan_comment (c # cs) s) = advance_n (take (Suc k) (c # cs)) s" by simp_all
    then show ?thesis by blast
  qed
qed

lemma scan_comment_closed:
  "snd (scan_comment r s) \<longleftrightarrow> has_close r"
  by (induction r arbitrary: s) simp_all

lemma scan_comment_open:
  "\<not> has_close r \<Longrightarrow> scan_comment r s = (advance_n r s, False)"
  by (induction r arbitrary: s) simp_all

lemma find_Some_holds: "find P xs = Some x \<Longrightarrow> P x"
  by (induction xs) (auto split: if_splits)

lemma scan_string_prefix: "scan_string q cs = Some r \<Longrightarrow> take (length r) cs = r"
proof (induction q cs arbitrary: r rule: scan_string.induct)
  case (1 q)
  then show ?case by simp
next
  case (2 q c cs)
  show ?case
  proof (cases "c = q")
    case True
    with 2(3) show ?thesis by auto
  next
    case nq: False
    show ?thesis
    proof (cases "c = backslash")
      case True
      with nq 2(3) obtain d ds r' where d: "cs = d # ds" "d \<noteq> newline"
        "scan_string q ds = Some r'" "r = c # d # r'"
        by (auto split: list.splits if_splits)
      from 2(1)[OF nq True d(1) d(2) d(3)] d show ?thesis by simp
    next
      case False
      with nq 2(3) obtain r' where r': "scan_string q cs = Some r'" "r = c # r'" by auto
      from 2(2)[OF nq False r'(1)] r' show ?thesis by simp
    qed
  qed
qed

lemma match_token_prefix:
  assumes m: "match_token prev rest = Some (typ, lx)"
  shows "take (length lx) rest = lx"
proof -
  have k: "match_keywords prev rest = Some l \<Longrightarrow> take (length l) rest = l" for l
    by (auto simp: match_keywords_def startswith_def dest!: find_Some_holds split: if_splits)
  have i: "match_identifier rest = Some l \<Longrightarrow> take (length l) rest = l" for l
    by (auto simp: match_identifier_def takeWhile_eq_take[symmetric] split: list.splits if_splits)
  have p: "match_punctuacion rest = Some l \<Longrightarrow> take (length l) rest = l" for l
    by (auto simp: match_punctuacion_def split: list.splits if_splits)
  have o: "match_operator rest = Some l \<Longrightarrow> take (length l) rest = l" for l
    by (auto simp: match_operator_def startswith_def dest!: find_Some_holds
        split: option.splits list.splits if_splits)
  have c: "match_constant rest = Some l \<Longrightarrow> take (length l) rest = l" for l
  proof -
    assume a: "match_constant rest = Some l"
    let ?ds = "takeWhile is_decimal rest"
    have ds: "take (length ?ds) rest = ?ds" by (simp add: takeWhile_eq_take[symmetric])
    show ?thesis
    proof (cases "drop (length ?ds) rest")
      case Nil
      with a ds show ?thesis by (auto simp: match_constant_def Let_def split: if_splits)
    next
      case (Cons x after)
      let ?fs = "takeWhile is_decimal after"
      have "rest = ?ds @ x # after"
        using Cons ds by (metis append_take_drop_id)
      moreover have "after = ?fs @ dropWhile is_decimal after" by simp
      ultimately have r: "rest = (?ds @ x # ?fs) @ dropWhile is_decimal after"
        by (metis append.assoc append_Cons)
      have long: "take (length (?ds @ x # ?fs)) rest = ?ds @ x # ?fs"
        by (subst r, rule append_eq_conv_conj[THEN iffD1, THEN conjunct1, symmetric], rule refl)
      from a Cons have "l = ?ds \<or> l = ?ds @ x # ?fs"
        by (auto simp: match_constant_def Let_def split: if_splits)
      with ds long show ?thesis by auto
    qed
  qed
  have s: "match_literal rest = Some l \<Longrightarrow> take (length l) rest = l" for l
    by (auto simp: match_literal_def dest: scan_string_prefix split: list.splits if_splits)
  from m k i p o c s show ?thesis
    by (auto simp: match_token_def split: option.splits)
qed

definition lex_inv :: "string \<Rightarrow> lex_state \<Rightarrow> bool" where
  "lex_inv code s = (lpos s \<le> length code \<and> s = state_at code (lpos s))"

lemma lex_inv_init: "lex_inv code lex_init"
  by (simp add: lex_inv_def state_at_def lex_init_def)

lemma startswith_take: "startswith r p \<Longrightarrow> take (length p) r = p"
  by (simp add: startswith_def)

lemma lex_step_adv_rest:
  assumes "lex_step code s = Inr (s', tok)"
  shows "\<exists>k\<le>length (drop (lpos s) code). s' = advance_n (take k (drop (lpos s) code)) s"
proof -
  let ?rest = "drop (lpos s) code"
  show ?thesis
  proof (cases "startswith ?rest ''//''")
    case True
    with assms have "s' = skip_line ?rest s" by (simp add: lex_step_def Let_def)
    with skip_line_take[of ?rest s] show ?thesis by simp
  next
    case nl: False
    show ?thesis
    proof (cases "startswith ?rest ''/*''")
      case True
      then obtain t where t: "?rest = CHR ''/'' # CHR ''*'' # t" using startswith_two by blast
      let ?s2 = "advance CHR ''*'' (advance CHR ''/'' s)"
      from True nl assms have s': "s' = fst (scan_comment (drop 2 ?rest) ?s2)"
        by (auto simp: lex_step_def Let_def split_beta split: if_splits)
      from scan_comment_take[of "drop 2 ?rest" ?s2] obtain k where
        k: "k \<le> length (drop 2 ?rest)"
        "fst (scan_comment (drop 2 ?rest) ?s2) = advance_n (take k (drop 2 ?rest)) ?s2" by blast
      have "?s2 = advance_n (take 2 ?rest) s" by (simp add: t numeral_2_eq_2)
      with k(2) s' have "s' = advance_n (take (2 + k) ?rest) s"
        by (simp only: advance_n_take_add)
      moreover from k(1) have "2 + k \<le> length ?rest" by (simp add: t)
      ultimately show ?thesis by blast
    next
      case nc: False
      show ?thesis
      proof (cases "take 1 ?rest = [newline]")
        case True
        with nl nc assms have "s' = advance_n (take 1 ?rest) s"
          by (simp add: lex_step_def Let_def)
        moreover from True have "1 \<le> length ?rest" by (cases ?rest) simp_all
        ultimately show ?thesis by blast
      next
        case nn: False
        show ?thesis
        proof (cases "takeWhile is_hspace ?rest \<noteq> []")
          case True
          with nl nc nn assms have "s' = advance_n (takeWhile is_hspace ?rest) s"
            by (simp add: lex_step_def Let_def)
          then have "s' = advance_n (take (length (takeWhile is_hspace ?rest)) ?rest) s"
            by (simp add: takeWhile_eq_take[symmetric])
          moreover have "length (takeWhile is_hspace ?rest) \<le> length ?rest"
            by (rule length_takeWhile_le)
          ultimately show ?thesis by blast
        next
          case False
          with nl nc nn assms obtain ty lx where
            m: "match_token (if lpos s = 0 then None else Some (code ! (lpos s - 1))) ?rest
                  = Some (ty, lx)" and s': "s' = advance_n lx s"
            by (auto simp: lex_step_def Let_def split: option.splits)
          from match_token_prefix[OF m] have p: "take (length lx) ?rest = lx" .
          then have "length lx \<le> length ?rest"
            by (metis length_take min.cobounded1 min.commute)
          with p s' show ?thesis by metis
        qed
      qed
    qed
  qed
qed

lemma lex_step_inv:
  assumes "lex_inv code s" and "lex_step code s = Inr (s', tok)"
  shows "lex_inv code s'"
proof -
  from lex_step_adv_rest[OF assms(2)] obtain k where
    k: "k \<le> length (drop (lpos s) code)" and s': "s' = advance_n (take k (drop (lpos s) code)) s"
    by blast
  from assms(1) have p: "lpos s \<le> length code" and s: "s = state_at code (lpos s)"
    by (simp_all add: lex_inv_def)
  from k p have le: "lpos s + k \<le> length code" by simp
  from s' have "s' = advance_n (take k (drop (lpos s) code)) (advance_n (take (lpos s) code) lex_init)"
    using s by (simp add: state_at_def)
  then have st: "s' = state_at code (lpos s + k)"
    by (simp only: advance_n_take_add state_at_def)
  have "lpos s' = lpos s + k"
    using s' k by simp
  with st le show ?thesis by (simp add: lex_inv_def)
qed

text \<open>The token a turn appends carries the line and column the state had before the token.\<close>

lemma lex_step_token:
  assumes "lex_step code s = Inr (s', Some (typ, lx, l, c))"
  shows "l = line s \<and> c = col s \<and> lx \<noteq> [] \<and> take (length lx) (drop (lpos s) code) = lx"
  using assms
  by (auto simp: lex_step_def Let_def split_beta split: if_splits option.splits
      dest: match_token_prefix match_token_nonempty)

lemma lex_step_unterminated:
  assumes "lex_step code s = Inl (UnterminatedComment l c)"
  shows "l = line (advance_n (drop (lpos s) code) s) \<and> c = col (advance_n (drop (lpos s) code) s)"
proof -
  let ?rest = "drop (lpos s) code"
  let ?s2 = "advance CHR ''*'' (advance CHR ''/'' s)"
  from assms have c: "startswith ?rest ''/*''" and nc: "\<not> snd (scan_comment (drop 2 ?rest) ?s2)"
    and lc: "l = line (fst (scan_comment (drop 2 ?rest) ?s2))"
      "c = col (fst (scan_comment (drop 2 ?rest) ?s2))"
    by (auto simp: lex_step_def Let_def split_beta split: if_splits option.splits)
  from c obtain t where t: "?rest = CHR ''/'' # CHR ''*'' # t" using startswith_two by blast
  from nc have "\<not> has_close (drop 2 ?rest)" by (simp add: scan_comment_closed)
  then have "fst (scan_comment (drop 2 ?rest) ?s2) = advance_n (drop 2 ?rest) ?s2"
    by (simp add: scan_comment_open)
  also have "\<dots> = advance_n ?rest s" by (simp add: t)
  finally show ?thesis using lc by simp
qed

lemma state_at_end:
  assumes "lex_inv code s"
  shows "advance_n (drop (lpos s) code) s = state_at code (length code)"
proof -
  from assms have "s = advance_n (take (lpos s) code) lex_init"
    by (simp add: lex_inv_def state_at_def)
  then have "advance_n (drop (lpos s) code) s =
      advance_n (take (lpos s) code @ drop (lpos s) code) lex_init"
    by (simp only: advance_n_append)
  then show ?thesis by (simp add: state_at_def)
qed

lemma lexer_loop_unterminated:
  "lex_inv code s \<Longrightarrow> lexer_loop code s result = Inl (UnterminatedComment l c) \<Longrightarrow>
   l = line (state_at code (length code)) \<and> c = col (state_at code (length code))"
proof (induction code s result rule: lexer_loop.induct)
  case (1 code s result)
  from 1(3) have lt: "lpos s < length code"
    by (subst (asm) lexer_loop.simps) (simp split: if_splits)
  show ?case
  proof (cases "lex_step code s")
    case (Inl err)
    with lt 1(3) have "err = UnterminatedComment l c"
      by (subst (asm) lexer_loop.simps) simp
    with Inl lex_step_unterminated[of code s l c] state_at_end[OF 1(2)] show ?thesis by simp
  next
    case (Inr x)
    obtain s' tok where x: "x = (s', tok)" by force
    from lex_step_inv[OF 1(2)] Inr x have inv: "lex_inv code s'" by simp
    from lt Inr x 1(3) have
      "lexer_loop code s' (case tok of None \<Rightarrow> result | Some t \<Rightarrow> result @ [t])
         = Inl (UnterminatedComment l c)"
      by (subst (asm) lexer_loop.simps) simp
    from 1(1)[OF lt Inr x[symmetric] inv this] show ?thesis .
  qed
qed

lemma lexer_loop_open_comment:
  assumes "lpos s < length code" and "startswith (drop (lpos s) code) ''/*''"
    and "\<not> has_close (drop (lpos s + 2) code)"
  shows "lexer_loop code s result =
     Inl (UnterminatedComment (line (advance_n (drop (lpos s) code) s))
                              (col (advance_n (drop (lpos s) code) s)))"
proof -
  let ?rest = "drop (lpos s) code"
  let ?s2 = "advance CHR ''*'' (advance CHR ''/'' s)"
  from assms(2) obtain t where t: "?rest = CHR ''/'' # CHR ''*'' # t" using startswith_two by blast
  then have ns: "\<not> startswith ?rest ''//''" by (simp add: startswith_def)
  have d: "drop 2 ?rest = drop (lpos s + 2) code" by (simp add: add.commute)
  with assms(3) have sc: "scan_comment (drop 2 ?rest) ?s2 = (advance_n (drop 2 ?rest) ?s2, False)"
    by (simp add: scan_comment_open)
  have "advance_n (drop 2 ?rest) ?s2 = advance_n ?rest s" by (simp add: t)
  with sc ns assms(2) have "lex_step code s =
     Inl (UnterminatedComment (line (advance_n ?rest s)) (col (advance_n ?rest s)))"
    by (simp add: lex_step_def Let_def)
  with assms(1) show ?thesis by (subst lexer_loop.simps) simp
qed

section \<open>The adapter (adapter_lexer.py)\<close>

definition PUNCT_MAP :: "(string \<times> string) list" where
  "PUNCT_MAP = [('';'', ''SEMI''), (''('', ''LPAREN''), ('')'', ''RPAREN''),
                (''{'', ''LBRACE''), (''}'', ''RBRACE''), ('','', ''COMMA'')]"

definition OP_MAP :: "(string \<times> string) list" where
  "OP_MAP = [(''=='', ''EQ''), (''!='', ''NEQ''), (''<='', ''LE''), (''>='', ''GE''),
             (''&&'', ''AND''), (''||'', ''OR''), (''++'', ''INC''), (''--'', ''DEC''),
             (''+='', ''PLUSEQ''), (''-='', ''MINUSEQ''), (''*='', ''STAREQ''),
             (''/='', ''SLASHEQ''), (''='', ''ASSIGN''), (''+'', ''PLUS''), (''-'', ''MINUS''),
             (''*'', ''STAR''), (''/'', ''SLASH''), (''<'', ''LT''), (''>'', ''GT''),
             (''!'', ''NOT''), (''%'', ''PERC'')]"

datatype tokenize_error =
    LexError lex_error
  | UnmappedPunctuation string nat nat
  | UnsupportedOperator string nat nat
  | UnknownTokenType string nat nat

text \<open>\<^verbatim>\<open>int(lex)\<close> on a string of decimal digits.\<close>

definition int_of_digits :: "string \<Rightarrow> int" where
  "int_of_digits ds = foldl (\<lambda>n c. 10 * n + int (of_char c - 48)) 0 ds"

definition Token :: "string \<Rightarrow> string \<Rightarrow> lit_value \<Rightarrow> nat \<times> nat \<Rightarrow> token" where
  "Token ty lx v p = \<lparr>ttype = ty, lexeme = lx, literal = v, pos = p\<rparr>"

text \<open>
  One turn of the loop over \<^verbatim>\<open>raw_tokens\<close>. \<open>float_str\<close> gives, for a lexeme with a dot,
  the text of the float Python reads from it (\<^verbatim>\<open>str(float(lex))\<close>).
\<close>

definition convert :: "(string \<Rightarrow> string) \<Rightarrow> raw_token \<Rightarrow> tokenize_error + token" where
  "convert float_str item =
     (case item of (ty, lx, l, c) \<Rightarrow>
        if ty = ''keywords'' then
          (if lx = ''int'' then Inr (Token ''INT'' lx NoLit (l, c))
           else Inr (Token ''ID'' lx NoLit (l, c)))
        else if ty = ''identifier'' then Inr (Token ''ID'' lx NoLit (l, c))
        else if ty = ''constant'' then
          Inr (Token ''NUM'' lx
                 (NumLit (if CHR ''.'' \<in> set lx then FloatV (float_str lx)
                          else IntV (int_of_digits lx))) (l, c))
        else if ty = ''punctuacion'' then
          (case map_of PUNCT_MAP lx of
             None \<Rightarrow> Inl (UnmappedPunctuation lx l c)
           | Some t \<Rightarrow> Inr (Token t lx NoLit (l, c)))
        else if ty = ''operator'' then
          (case map_of OP_MAP lx of
             None \<Rightarrow> Inl (UnsupportedOperator lx l c)
           | Some t \<Rightarrow> Inr (Token t lx NoLit (l, c)))
        else if ty = ''literal'' then
          Inr (Token ''STRING'' lx (StrLit (butlast (drop 1 lx))) (l, c))
        else Inl (UnknownTokenType ty l c))"

fun convert_all :: "(string \<Rightarrow> string) \<Rightarrow> raw_token list \<Rightarrow> token list \<Rightarrow> tokenize_error + token list" where
  "convert_all float_str [] out = Inr out"
| "convert_all float_str (item # rest) out =
     (case convert float_str item of
        Inl err \<Rightarrow> Inl err
      | Inr t \<Rightarrow> convert_all float_str rest (out @ [t]))"

text \<open>After the loop, \<^verbatim>\<open>line\<close> and \<^verbatim>\<open>col\<close> are those of the last item.\<close>

definition tokenize_std :: "(string \<Rightarrow> string) \<Rightarrow> string \<Rightarrow> tokenize_error + token list" where
  "tokenize_std float_str source =
     (case lexer source of
        Inl err \<Rightarrow> Inl (LexError err)
      | Inr raw_tokens \<Rightarrow>
          (case convert_all float_str raw_tokens [] of
             Inl err \<Rightarrow> Inl err
           | Inr out \<Rightarrow>
               Inr (out @ [Token ''EOF'' [] NoLit
                      (if raw_tokens \<noteq> [] then (case last raw_tokens of (ty, lx, l, c) \<Rightarrow> (l, c))
                       else (1, 1))])))"

text \<open>A raw token stands at an offset of the text: its lexeme is there, and its line and column are that offset's.\<close>

definition token_at :: "string \<Rightarrow> string \<Rightarrow> nat \<times> nat \<Rightarrow> bool" where
  "token_at code lx p =
     (\<exists>k<length code. p = (line (state_at code k), col (state_at code k)) \<and> lx \<noteq> [] \<and>
        take (length lx) (drop k code) = lx)"

lemma lexer_loop_tokens:
  "lex_inv code s \<Longrightarrow> lexer_loop code s result = Inr out \<Longrightarrow>
   (\<forall>(ty, lx, l, c) \<in> set result. token_at code lx (l, c)) \<Longrightarrow>
   (\<forall>(ty, lx, l, c) \<in> set out. token_at code lx (l, c))"
proof (induction code s result rule: lexer_loop.induct)
  case (1 code s result)
  show ?case
  proof (cases "lpos s < length code")
    case False
    with 1(3) have "out = result" by (subst (asm) lexer_loop.simps) simp
    with 1(4) show ?thesis by simp
  next
    case lt: True
    show ?thesis
    proof (cases "lex_step code s")
      case (Inl err)
      with lt 1(3) show ?thesis by (subst (asm) lexer_loop.simps) simp
    next
      case (Inr x)
      obtain s' tok where x: "x = (s', tok)" by force
      let ?res = "case tok of None \<Rightarrow> result | Some t \<Rightarrow> result @ [t]"
      from lex_step_inv[OF 1(2)] Inr x have inv: "lex_inv code s'" by simp
      from lt Inr x 1(3) have run: "lexer_loop code s' ?res = Inr out"
        by (subst (asm) lexer_loop.simps) simp
      have "\<forall>(ty, lx, l, c) \<in> set ?res. token_at code lx (l, c)"
      proof (cases tok)
        case None
        with 1(4) show ?thesis by simp
      next
        case (Some t)
        obtain ty lx l c where t: "t = (ty, lx, l, c)" by (cases t) auto
        from lex_step_token[of code s s' ty lx l c] Inr x Some t
        have "l = line s" "c = col s" "lx \<noteq> []" "take (length lx) (drop (lpos s) code) = lx"
          by simp_all
        moreover from 1(2) have "s = state_at code (lpos s)" by (simp add: lex_inv_def)
        ultimately have "token_at code lx (l, c)"
          using lt unfolding token_at_def by (intro exI[of _ "lpos s"]) simp
        with 1(4) Some t show ?thesis by auto
      qed
      from 1(1)[OF lt Inr x[symmetric] inv run this] show ?thesis .
    qed
  qed
qed

lemma lexer_tokens:
  "lexer code = Inr out \<Longrightarrow> (ty, lx, l, c) \<in> set out \<Longrightarrow> token_at code lx (l, c)"
  using lexer_loop_tokens[of code lex_init "[]" out] lex_inv_init[of code]
  by (auto simp: lexer_def lex_init_def)

lemma convert_fields:
  "convert fs (ty, lx, l, c) = Inr t \<Longrightarrow> lexeme t = lx \<and> pos t = (l, c) \<and> ttype t \<noteq> ''EOF''"
  by (auto simp: convert_def Token_def PUNCT_MAP_def OP_MAP_def split: if_splits option.splits)

lemma convert_all_shape:
  "convert_all fs raw acc = Inr out \<Longrightarrow>
   \<exists>new. out = acc @ new \<and> length new = length raw \<and>
     (\<forall>j<length raw. lexeme (new ! j) = fst (snd (raw ! j)) \<and>
        pos (new ! j) = snd (snd (raw ! j)) \<and> ttype (new ! j) \<noteq> ''EOF'')"
proof (induction raw arbitrary: acc)
  case Nil
  then show ?case by simp
next
  case (Cons item raw)
  obtain ty lx l c where item: "item = (ty, lx, l, c)" by (cases item) auto
  from Cons.prems obtain t where t: "convert fs item = Inr t"
    and rec: "convert_all fs raw (acc @ [t]) = Inr out"
    by (auto split: sum.splits)
  from Cons.IH[OF rec] obtain new where new: "out = (acc @ [t]) @ new" "length new = length raw"
    "\<forall>j<length raw. lexeme (new ! j) = fst (snd (raw ! j)) \<and>
        pos (new ! j) = snd (snd (raw ! j)) \<and> ttype (new ! j) \<noteq> ''EOF''" by blast
  from convert_fields[of fs ty lx l c t] t item
  have tf: "lexeme t = lx" "pos t = (l, c)" "ttype t \<noteq> ''EOF''" by simp_all
  have "\<forall>j<length (item # raw). lexeme ((t # new) ! j) = fst (snd ((item # raw) ! j)) \<and>
        pos ((t # new) ! j) = snd (snd ((item # raw) ! j)) \<and> ttype ((t # new) ! j) \<noteq> ''EOF''"
  proof (intro allI impI)
    fix j assume "j < length (item # raw)"
    then show "lexeme ((t # new) ! j) = fst (snd ((item # raw) ! j)) \<and>
        pos ((t # new) ! j) = snd (snd ((item # raw) ! j)) \<and> ttype ((t # new) ! j) \<noteq> ''EOF''"
      using new(3) tf item by (cases j) simp_all
  qed
  with new(1,2) show ?case by (intro exI[of _ "t # new"]) simp
qed


text \<open>
  C7, as amended. Whenever \<^verbatim>\<open>tokenize_std\<close> returns (the lexer raised no error and every
  operator is mapped), the list ends with an \<^verbatim>\<open>EOF\<close> token with empty lexeme and no literal,
  and no other token is an \<^verbatim>\<open>EOF\<close>. Its position is (1, 1) when there is no other token;
  otherwise it is the position of the last real token, which is the line and column of the
  first character of that token's lexeme in the source.
\<close>

theorem tokenize_std_eof:
  assumes "tokenize_std float_str source = Inr toks"
  shows "toks \<noteq> [] \<and>
         last toks = Token ''EOF'' [] NoLit (pos (last toks)) \<and>
         list_all (\<lambda>t. ttype t \<noteq> ''EOF'') (butlast toks) \<and>
         (if butlast toks = [] then pos (last toks) = (1, 1)
          else pos (last toks) = pos (last (butlast toks)) \<and>
               token_at source (lexeme (last (butlast toks))) (pos (last (butlast toks))))"
proof -
  from assms obtain raw out where raw: "lexer source = Inr raw"
    and out: "convert_all float_str raw [] = Inr out"
    and toks: "toks = out @ [Token ''EOF'' [] NoLit
                      (if raw \<noteq> [] then (case last raw of (ty, lx, l, c) \<Rightarrow> (l, c))
                       else (1, 1))]"
    by (auto simp: tokenize_std_def split: sum.splits)
  from convert_all_shape[OF out] have len: "length out = length raw"
    and f: "\<forall>j<length raw. lexeme (out ! j) = fst (snd (raw ! j)) \<and>
        pos (out ! j) = snd (snd (raw ! j)) \<and> ttype (out ! j) \<noteq> ''EOF''"
    by auto
  have bl: "butlast toks = out" and la: "last toks = Token ''EOF'' [] NoLit
                      (if raw \<noteq> [] then (case last raw of (ty, lx, l, c) \<Rightarrow> (l, c))
                       else (1, 1))"
    using toks by simp_all
  have p1: "toks \<noteq> []" using toks by simp
  have p2: "last toks = Token ''EOF'' [] NoLit (pos (last toks))"
    by (subst (1 2) la) (simp add: Token_def)
  have p3: "list_all (\<lambda>t. ttype t \<noteq> ''EOF'') (butlast toks)"
    unfolding bl list_all_length using f len by simp
  have p4: "if butlast toks = [] then pos (last toks) = (1, 1)
          else pos (last toks) = pos (last (butlast toks)) \<and>
               token_at source (lexeme (last (butlast toks))) (pos (last (butlast toks)))"
  proof (cases "raw = []")
    case True
    with len la bl show ?thesis by (simp add: Token_def)
  next
    case False
    with len have ne: "out \<noteq> []" by auto
    obtain ty lx l c where lr: "last raw = (ty, lx, l, c)" by (cases "last raw") auto
    from False have j: "length raw - 1 < length raw" by (cases raw) simp_all
    from f[rule_format, OF j] lr False ne len
    have lo: "lexeme (last out) = lx" "pos (last out) = (l, c)"
      by (simp_all add: last_conv_nth)
    from lr False have "(ty, lx, l, c) \<in> set raw" by (metis last_in_set)
    from lexer_tokens[OF raw this] have "token_at source lx (l, c)" .
    with lo la lr False ne bl show ?thesis by (simp add: Token_def)
  qed
  from p1 p2 p3 p4 show ?thesis by (intro conjI)
qed

theorem tokenize_std_eof_witness:
  "tokenize_std (\<lambda>s. s) ''int x;'' =
     Inr [Token ''INT'' ''int'' NoLit (1, 1), Token ''ID'' ''x'' NoLit (1, 5),
          Token ''SEMI'' '';'' NoLit (1, 6), Token ''EOF'' [] NoLit (1, 6)] \<and>
   token_at ''int x;'' '';'' (1, 6)"
proof -
  have run: "tokenize_std (\<lambda>s. s) ''int x;'' =
     Inr [Token ''INT'' ''int'' NoLit (1, 1), Token ''ID'' ''x'' NoLit (1, 5),
          Token ''SEMI'' '';'' NoLit (1, 6), Token ''EOF'' [] NoLit (1, 6)]"
    by code_simp
  from tokenize_std_eof[OF run] have "token_at ''int x;'' '';'' (1, 6)"
    by (simp add: Token_def)
  with run show ?thesis by simp
qed

text \<open>
  The claim as stated (a list for every source string) fails where the adapter raises: the
  lexer accepts a lone \<^verbatim>\<open>&\<close> as an operator and \<^verbatim>\<open>OP_MAP\<close> has no entry for it.
\<close>

theorem tokenize_std_eof_counterexample:
  "tokenize_std (\<lambda>s. s) ''&'' = Inl (UnsupportedOperator ''&'' 1 1)"
  by code_simp

subsection \<open>An unterminated block comment\<close>

text \<open>
  Whenever the loop stands at a \<^verbatim>\<open>/*\<close> with no \<^verbatim>\<open>*/\<close> after it, the lexer fails with the
  unterminated-comment error, and the line and column it reports are those reached after
  reading the rest of the input; whenever the lexer fails with that error, the reported
  position is the end of the input.
\<close>

lemma unterminated_comment_reports_end:
  "(lpos s < length code \<and> startswith (drop (lpos s) code) ''/*'' \<and>
      \<not> has_close (drop (lpos s + 2) code) \<longrightarrow>
      lexer_loop code s result =
        Inl (UnterminatedComment (line (advance_n (drop (lpos s) code) s))
                                 (col (advance_n (drop (lpos s) code) s)))) \<and>
   (lexer code = Inl (UnterminatedComment l c) \<longrightarrow>
      l = line (state_at code (length code)) \<and> c = col (state_at code (length code)))"
  using lexer_loop_open_comment[of s code result]
    lexer_loop_unterminated[of code lex_init "[]" l c] lex_inv_init[of code]
  by (auto simp: lexer_def lex_init_def)

text \<open>
  C6. The comment of this input starts at line 2, column 1; the error carries line 2,
  column 8, the end of the input.
\<close>

theorem unterminated_comment_position:
  "lexer (''int x;'' @ [newline] @ ''/* open'') = Inl (UnterminatedComment 2 8) \<and>
   (line (state_at (''int x;'' @ [newline] @ ''/* open'') 7),
    col (state_at (''int x;'' @ [newline] @ ''/* open'') 7)) = (2, 1) \<and>
   startswith (drop 7 (''int x;'' @ [newline] @ ''/* open'')) ''/*''"
  by code_simp

section \<open>The parser (parser.py)\<close>

text \<open>\<^verbatim>\<open>Parser.__init__\<close>: \<^verbatim>\<open>self.tokens[0]\<close> raises on an empty list.\<close>

datatype py_error = IndexError

definition p_init_builtin_functions :: "parser \<Rightarrow> parser" where
  "p_init_builtin_functions p =
     p\<lparr>function_table := (function_table p)(''printf'' \<mapsto> (''int'', [], True),
                                             ''scanf'' \<mapsto> (''int'', [], True))\<rparr>"

definition Parser_init :: "token list \<Rightarrow> py_error + parser" where
  "Parser_init toks =
     (case toks of
        [] \<Rightarrow> Inl IndexError
      | t # _ \<Rightarrow> Inr (p_init_builtin_functions
                 \<lparr>tokens = toks, tok_i = 0, current = t, symbols = Map.empty,
                  function_table = Map.empty, current_function_return_type = None\<rparr>))"




subsection \<open>The prescan\<close>










subsection \<open>The prescan returns and keeps the entries of the function table\<close>

text \<open>
  A state as \<^verbatim>\<open>Parser.__init__\<close> and \<^verbatim>\<open>_advance\<close> leave it, over a token list that ends with
  \<^verbatim>\<open>EOF\<close> (as \<^verbatim>\<open>tokenize_std\<close> builds it): \<^verbatim>\<open>current\<close> is the token at \<^verbatim>\<open>i\<close>.
\<close>

definition parser_ok :: "parser \<Rightarrow> bool" where
  "parser_ok p = (tok_i p < length (tokens p) \<and> current p = tokens p ! tok_i p \<and>
                  ttype (last (tokens p)) = ''EOF'')"

definition remaining :: "parser \<Rightarrow> nat" where
  "remaining p = length (tokens p) - tok_i p"







































lemma Parser_init_ok:
  assumes "toks \<noteq> []" and "ttype (last toks) = ''EOF''"
  shows "\<exists>p. Parser_init toks = Inr p \<and> parser_ok p \<and> remaining p = length toks \<and>
             function_table p = [''printf'' \<mapsto> (''int'', [], True), ''scanf'' \<mapsto> (''int'', [], True)]"
  using assms
  by (cases toks)
     (simp_all add: Parser_init_def p_init_builtin_functions_def parser_ok_def remaining_def)





end
